theory Spec2Isabelle
  imports Complex_Main "HOL-Library.AList"
begin

section \<open>The activities of kopf's reactor: \<open>kopf/reactor/activities.py\<close>\<close>

text \<open>
  The module holds three coroutines: \<open>run_activity\<close> (the batch runner), \<open>authenticate\<close>
  (one authentication attempt) and \<open>authenticator\<close> (the endless loop around it), and the
  exception class \<open>ActivityError\<close>. Everything else they touch lives in other modules:
  the \<open>State\<close> class, \<open>execute_handlers_once\<close>, the sleep primitive, the registry and the
  vault. Those collaborators are parameters of the embedding (two records of functions),
  so every theorem holds for whatever they compute.

  Effects are explicit. The collaborators act on a world \<open>'w\<close> (handlers' own state, the clock,
  the vault's contents) that is passed through. Next to it the model keeps a log of the calls
  made to the collaborators, in program order: it is written by the model only, so it records
  what the code did whatever the collaborators are. Each \<open>await\<close> on a collaborator is taken
  to return; the two loops of the module may run forever and are partial functions.
\<close>

subsection \<open>Dictionaries\<close>

text \<open>
  A Python \<open>dict\<close> iterates in insertion order and a key that is assigned again keeps its
  place. The order decides which exception is \<open>exceptions[0]\<close>, so a dict is an association
  list; assigning one key is \<open>AList.update\<close>, which replaces in place or appends at the end.
\<close>

type_synonym ('k, 'v) dict = "('k \<times> 'v) list"

text \<open>\<open>d.update(u)\<close>: the items of \<open>u\<close> are assigned in their order.\<close>

definition dict_update :: "('k, 'v) dict \<Rightarrow> ('k, 'v) dict \<Rightarrow> ('k, 'v) dict" where
  "dict_update d u = fold (\<lambda>(k, v). AList.update k v) u d"

text \<open>A dict display or comprehension \<open>{k: v for ...}\<close>: the pairs are assigned to a new dict.\<close>

definition dict_of_items :: "('k \<times> 'v) list \<Rightarrow> ('k, 'v) dict" where
  "dict_of_items xs = dict_update [] xs"

subsection \<open>Data\<close>

text \<open>
  Modelled from the spec: the \<open>Activity\<close> enumeration is declared in
  \<open>kopf.structs.handlers\<close>, which is not among the sources; the data model names
  authentication, operator startup and operator cleanup. The source mentions
  \<open>Activity.AUTHENTICATION\<close> only.
\<close>

datatype Activity = STARTUP | CLEANUP | AUTHENTICATION

text \<open>
  Modelled from the spec: \<open>HandlerOutcome\<close> is declared in \<open>kopf.reactor.states\<close>, which is
  not among the sources. The source reads its fields \<open>exception\<close> and \<open>result\<close>, both optional;
  \<open>final\<close> and \<open>delay\<close> follow the data model (success and permanent failure are final, a
  temporary failure carries the delay before its retry). Delays are seconds; the source
  only compares them, so the float is a real number here.
\<close>

record ('x, 'r) HandlerOutcome =
  final :: bool
  delay :: "real option"
  result :: "'r option"
  exception :: "'x option"

type_synonym ('hid, 'x, 'r) outcomes = "('hid, ('x, 'r) HandlerOutcome) dict"

text \<open>\<open>causation.ActivityCause(logger=logger, activity=activity, settings=settings)\<close>\<close>

record 'set ActivityCause =
  cause_logger :: string
  cause_activity :: Activity
  cause_settings :: 'set

text \<open>
  \<open>class ActivityError(Exception)\<close>: the message, the keyword argument \<open>outcomes\<close> stored by
  \<open>__init__\<close>, and the \<open>__cause__\<close> that \<open>raise ... from\<close> attaches.
\<close>

record ('hid, 'x, 'r) ActivityError =
  err_msg :: string
  err_outcomes :: "('hid, 'x, 'r) outcomes"
  err_cause :: 'x

text \<open>The calls to the collaborators, as the log records them.\<close>

datatype ('lc, 'st, 'hid, 'x, 'r) event =
    GetHandlers Activity
  | ExecuteHandlersOnce 'lc 'st "('hid, 'x, 'r) outcomes"
  | SleepOrWait real
  | WaitForEmptiness
  | LogInfo string
  | LogWarning string
  | Populate "(string, 'r) dict"

subsection \<open>Collaborators\<close>

text \<open>
  The operations of \<open>states.State\<close> that \<open>run_activity\<close> uses. \<open>done\<close> and \<open>delay\<close> are
  properties computed from the state.
\<close>

record ('h, 'st, 'hid, 'x, 'r) state_ops =
  from_scratch :: "'h list \<Rightarrow> 'st"
  state_done :: "'st \<Rightarrow> bool"
  state_delay :: "'st \<Rightarrow> real option"
  with_outcomes :: "'st \<Rightarrow> ('hid, 'x, 'r) outcomes \<Rightarrow> 'st"

text \<open>
  The registry lookup, the execution tick, the sleep primitive with its cap
  \<open>handling.WAITING_KEEPALIVE_INTERVAL\<close>, the lifecycle \<open>lifecycles.all_at_once\<close>, the
  vault (its truth value, \<open>wait_for_emptiness\<close>, \<open>populate\<close>), \<open>str\<close> on a handler id and
  the \<open>value\<close> of an activity.
\<close>

record ('reg, 'set, 'lc, 'h, 'st, 'hid, 'x, 'r, 'w) env =
  get_handlers :: "'reg \<Rightarrow> Activity \<Rightarrow> 'h list"
  execute_handlers_once ::
    "'lc \<Rightarrow> 'set \<Rightarrow> 'h list \<Rightarrow> 'set ActivityCause \<Rightarrow> 'st \<Rightarrow> 'w \<Rightarrow> ('hid, 'x, 'r) outcomes \<times> 'w"
  sleep_or_wait :: "real \<Rightarrow> 'w \<Rightarrow> 'w"
  WAITING_KEEPALIVE_INTERVAL :: real
  all_at_once :: 'lc
  vault_bool :: "'w \<Rightarrow> bool"
  wait_for_emptiness :: "'w \<Rightarrow> 'w"
  populate :: "(string, 'r) dict \<Rightarrow> 'w \<Rightarrow> 'w"
  str_of :: "'hid \<Rightarrow> string"
  activity_value :: "Activity \<Rightarrow> string"

subsection \<open>\<open>run_activity\<close>\<close>

text \<open>The variables of the \<open>while\<close> loop, with the world and the log.\<close>

record ('lc, 'st, 'hid, 'x, 'r, 'w) loop_vars =
  lv_state :: 'st
  lv_outcomes :: "('hid, 'x, 'r) outcomes"
  lv_world :: 'w
  lv_log :: "('lc, 'st, 'hid, 'x, 'r) event list"

text \<open>
  One pass: the body of the \<open>while\<close> loop (lines 115 to 127). \<open>if delay:\<close> tests an
  optional float: it holds when the delay is neither \<open>None\<close> nor zero.
\<close>

definition loop_body ::
  "('h, 'st, 'hid, 'x, 'r) state_ops \<Rightarrow> ('reg, 'set, 'lc, 'h, 'st, 'hid, 'x, 'r, 'w) env \<Rightarrow>
   'lc \<Rightarrow> 'set \<Rightarrow> 'h list \<Rightarrow> 'set ActivityCause \<Rightarrow>
   ('lc, 'st, 'hid, 'x, 'r, 'w) loop_vars \<Rightarrow> ('lc, 'st, 'hid, 'x, 'r, 'w) loop_vars" where
  "loop_body S E lifecycle settings handlers cause v =
    (case execute_handlers_once E lifecycle settings handlers cause (lv_state v) (lv_world v) of
      (current_outcomes, w1) \<Rightarrow>
        let v1 = \<lparr>lv_state = with_outcomes S (lv_state v) current_outcomes,
                  lv_outcomes = dict_update (lv_outcomes v) current_outcomes,
                  lv_world = w1,
                  lv_log = lv_log v @ [ExecuteHandlersOnce lifecycle (lv_state v) current_outcomes]\<rparr>
        in case state_delay S (lv_state v1) of
             None \<Rightarrow> v1
           | Some d \<Rightarrow>
               if d \<noteq> 0 then
                 let limited_delay = min d (WAITING_KEEPALIVE_INTERVAL E)
                 in v1\<lparr>lv_world := sleep_or_wait E limited_delay w1,
                       lv_log := lv_log v1 @ [SleepOrWait limited_delay]\<rparr>
               else v1)"

text \<open>\<open>while not state.done\<close>: it may run forever, and then the value is \<open>None\<close>.\<close>

partial_function (option) run_loop ::
  "('h, 'st, 'hid, 'x, 'r) state_ops \<Rightarrow> ('reg, 'set, 'lc, 'h, 'st, 'hid, 'x, 'r, 'w) env \<Rightarrow>
   'lc \<Rightarrow> 'set \<Rightarrow> 'h list \<Rightarrow> 'set ActivityCause \<Rightarrow>
   ('lc, 'st, 'hid, 'x, 'r, 'w) loop_vars \<Rightarrow> ('lc, 'st, 'hid, 'x, 'r, 'w) loop_vars option" where
  "run_loop S E lifecycle settings handlers cause v =
    (if \<not> state_done S (lv_state v)
     then run_loop S E lifecycle settings handlers cause
            (loop_body S E lifecycle settings handlers cause v)
     else Some v)"

declare run_loop.simps [code]

text \<open>The first lines of \<open>run_activity\<close>: the cause and the variables as the loop meets them.\<close>

definition activity_cause ::
  "('reg, 'set, 'lc, 'h, 'st, 'hid, 'x, 'r, 'w) env \<Rightarrow> 'set \<Rightarrow> Activity \<Rightarrow> 'set ActivityCause" where
  "activity_cause E settings activity =
    \<lparr>cause_logger = ''kopf.activities.'' @ activity_value E activity,
     cause_activity = activity, cause_settings = settings\<rparr>"

definition initial_vars ::
  "('h, 'st, 'hid, 'x, 'r) state_ops \<Rightarrow> ('reg, 'set, 'lc, 'h, 'st, 'hid, 'x, 'r, 'w) env \<Rightarrow>
   'reg \<Rightarrow> Activity \<Rightarrow> 'w \<Rightarrow> ('lc, 'st, 'hid, 'x, 'r, 'w) loop_vars" where
  "initial_vars S E registry activity w =
    \<lparr>lv_state = from_scratch S (get_handlers E registry activity), lv_outcomes = [],
     lv_world = w, lv_log = [GetHandlers activity]\<rparr>"

text \<open>The list \<open>exceptions\<close> and the dict \<open>results\<close> of lines 132 to 142.\<close>

definition exceptions_of :: "('hid, 'x, 'r) outcomes \<Rightarrow> 'x list" where
  "exceptions_of outcomes = List.map_filter (\<lambda>(handler_id, outcome). exception outcome) outcomes"

definition results_of :: "('hid, 'x, 'r) outcomes \<Rightarrow> ('hid, 'r) dict" where
  "results_of outcomes =
    dict_of_items (List.map_filter
      (\<lambda>(handler_id, outcome). map_option (Pair handler_id) (result outcome)) outcomes)"

text \<open>
  \<open>run_activity\<close>: \<open>Inl\<close> is the raised \<open>ActivityError\<close>, \<open>Inr\<close> the returned results; with
  them come the world and the log of the calls made.
\<close>

definition run_activity ::
  "('h, 'st, 'hid, 'x, 'r) state_ops \<Rightarrow> ('reg, 'set, 'lc, 'h, 'st, 'hid, 'x, 'r, 'w) env \<Rightarrow>
   'lc \<Rightarrow> 'reg \<Rightarrow> 'set \<Rightarrow> Activity \<Rightarrow> 'w \<Rightarrow>
   ((('hid, 'x, 'r) ActivityError + ('hid, 'r) dict) \<times> 'w \<times> ('lc, 'st, 'hid, 'x, 'r) event list) option" where
  "run_activity S E lifecycle registry settings activity w =
    (case run_loop S E lifecycle settings (get_handlers E registry activity)
            (activity_cause E settings activity) (initial_vars S E registry activity w) of
      None \<Rightarrow> None
    | Some v \<Rightarrow>
        (case exceptions_of (lv_outcomes v) of
          e # _ \<Rightarrow>
            Some (Inl \<lparr>err_msg = ''One or more handlers failed.'',
                       err_outcomes = lv_outcomes v, err_cause = e\<rparr>,
                  lv_world v, lv_log v)
        | [] \<Rightarrow> Some (Inr (results_of (lv_outcomes v)), lv_world v, lv_log v)))"

subsection \<open>\<open>authenticate\<close> and \<open>authenticator\<close>\<close>

text \<open>
  \<open>authenticate\<close>: the vault is part of the world. \<open>Inl\<close> is the \<open>ActivityError\<close> that
  \<open>run_activity\<close> raised: the function has no \<open>try\<close>, so it leaves through every line
  that follows the call. \<open>if activity_results:\<close> tests that the dict is not empty.
  The title is always given here: the default \<open>"Authentication"\<close> of the keyword argument
  is the same function at that title.
\<close>

definition authenticate ::
  "('h, 'st, 'hid, 'x, 'r) state_ops \<Rightarrow> ('reg, 'set, 'lc, 'h, 'st, 'hid, 'x, 'r, 'w) env \<Rightarrow>
   'reg \<Rightarrow> 'set \<Rightarrow> string \<Rightarrow> 'w \<Rightarrow>
   ((('hid, 'x, 'r) ActivityError + unit) \<times> 'w \<times> ('lc, 'st, 'hid, 'x, 'r) event list) option" where
  "authenticate S E registry settings activity_title w =
    (let w1 = wait_for_emptiness E w;
         log1 = [WaitForEmptiness, LogInfo (activity_title @ '' has been initiated.'')]
     in case run_activity S E (all_at_once E) registry settings AUTHENTICATION w1 of
          None \<Rightarrow> None
        | Some (outcome, w2, log2) \<Rightarrow>
            (case outcome of
              Inl err \<Rightarrow> Some (Inl err, w2, log1 @ log2)
            | Inr activity_results \<Rightarrow>
                let log3 =
                      (if activity_results \<noteq> []
                       then [LogInfo (activity_title @ '' has finished.'')]
                       else [LogWarning (activity_title @ '' has failed: '' @
                               ''no credentials were retrieved from the login handlers.'')]);
                    credentials = dict_of_items
                      (map (\<lambda>(handler_id, info). (str_of E handler_id, info)) activity_results)
                in Some (Inr (), populate E credentials w2,
                         log1 @ log2 @ log3 @ [Populate credentials])))"

text \<open>The title that \<open>authenticator\<close> passes: \<open>if counter\<close> tests that the integer is not zero.\<close>

definition activity_title_of :: "int \<Rightarrow> string" where
  "activity_title_of counter =
    (if counter \<noteq> 0 then ''Re-authentication'' else ''Initial authentication'')"

text \<open>The variables of \<open>authenticator\<close>'s loop, with the world and the log.\<close>

record ('lc, 'st, 'hid, 'x, 'r, 'w) auth_vars =
  av_counter :: int
  av_world :: 'w
  av_log :: "('lc, 'st, 'hid, 'x, 'r) event list"

text \<open>
  One iteration of \<open>while True\<close>: the call of \<open>authenticate\<close> and \<open>counter += 1\<close>. \<open>Inl\<close> is
  the exception that leaves the loop, with the world and the log at that moment.
\<close>

definition authenticator_body ::
  "('h, 'st, 'hid, 'x, 'r) state_ops \<Rightarrow> ('reg, 'set, 'lc, 'h, 'st, 'hid, 'x, 'r, 'w) env \<Rightarrow>
   'reg \<Rightarrow> 'set \<Rightarrow> ('lc, 'st, 'hid, 'x, 'r, 'w) auth_vars \<Rightarrow>
   (((('hid, 'x, 'r) ActivityError \<times> 'w \<times> ('lc, 'st, 'hid, 'x, 'r) event list)
     + ('lc, 'st, 'hid, 'x, 'r, 'w) auth_vars)) option" where
  "authenticator_body S E registry settings v =
    (case authenticate S E registry settings (activity_title_of (av_counter v)) (av_world v) of
      None \<Rightarrow> None
    | Some (outcome, w', evs') \<Rightarrow>
        (case outcome of
          Inl err \<Rightarrow> Some (Inl (err, w', av_log v @ evs'))
        | Inr _ \<Rightarrow>
            Some (Inr \<lparr>av_counter = av_counter v + 1, av_world = w', av_log = av_log v @ evs'\<rparr>)))"

text \<open>
  \<open>while True\<close>. The loop has no \<open>break\<close> and no \<open>return\<close>; \<open>Inr\<close> would be a normal return
  of the coroutine, whose annotation is \<open>NoReturn\<close>.
\<close>

partial_function (option) authenticator_loop ::
  "('h, 'st, 'hid, 'x, 'r) state_ops \<Rightarrow> ('reg, 'set, 'lc, 'h, 'st, 'hid, 'x, 'r, 'w) env \<Rightarrow>
   'reg \<Rightarrow> 'set \<Rightarrow> ('lc, 'st, 'hid, 'x, 'r, 'w) auth_vars \<Rightarrow>
   ((('hid, 'x, 'r) ActivityError \<times> 'w \<times> ('lc, 'st, 'hid, 'x, 'r) event list) + unit) option" where
  "authenticator_loop S E registry settings v =
    (case authenticator_body S E registry settings v of
      None \<Rightarrow> None
    | Some (Inl raised) \<Rightarrow> Some (Inl raised)
    | Some (Inr v') \<Rightarrow> authenticator_loop S E registry settings v')"

declare authenticator_loop.simps [code]

definition authenticator_start ::
  "('reg, 'set, 'lc, 'h, 'st, 'hid, 'x, 'r, 'w) env \<Rightarrow> 'w \<Rightarrow> ('lc, 'st, 'hid, 'x, 'r, 'w) auth_vars" where
  "authenticator_start E w =
    \<lparr>av_counter = (if vault_bool E w then 1 else 0), av_world = w, av_log = []\<rparr>"

definition authenticator ::
  "('h, 'st, 'hid, 'x, 'r) state_ops \<Rightarrow> ('reg, 'set, 'lc, 'h, 'st, 'hid, 'x, 'r, 'w) env \<Rightarrow>
   'reg \<Rightarrow> 'set \<Rightarrow> 'w \<Rightarrow>
   ((('hid, 'x, 'r) ActivityError \<times> 'w \<times> ('lc, 'st, 'hid, 'x, 'r) event list) + unit) option" where
  "authenticator S E registry settings w =
    authenticator_loop S E registry settings (authenticator_start E w)"

text \<open>
  The loop after a number of iterations: \<open>Inr\<close> holds the variables with which the next
  iteration starts, \<open>Inl\<close> the exception that left the loop on the way. It shows the
  iterations of a loop that never ends, which \<open>authenticator_loop\<close> cannot.
\<close>

fun authenticator_upto ::
  "nat \<Rightarrow> ('h, 'st, 'hid, 'x, 'r) state_ops \<Rightarrow> ('reg, 'set, 'lc, 'h, 'st, 'hid, 'x, 'r, 'w) env \<Rightarrow>
   'reg \<Rightarrow> 'set \<Rightarrow> ('lc, 'st, 'hid, 'x, 'r, 'w) auth_vars \<Rightarrow>
   (((('hid, 'x, 'r) ActivityError \<times> 'w \<times> ('lc, 'st, 'hid, 'x, 'r) event list)
     + ('lc, 'st, 'hid, 'x, 'r, 'w) auth_vars)) option" where
  "authenticator_upto 0 S E registry settings v = Some (Inr v)"
| "authenticator_upto (Suc n) S E registry settings v =
    (case authenticator_body S E registry settings v of
      None \<Rightarrow> None
    | Some (Inl raised) \<Rightarrow> Some (Inl raised)
    | Some (Inr v') \<Rightarrow> authenticator_upto n S E registry settings v')"

subsection \<open>Reading the log\<close>

definition passes_of :: "('lc, 'st, 'hid, 'x, 'r) event list \<Rightarrow> ('hid, 'x, 'r) outcomes list" where
  "passes_of evs = List.map_filter (\<lambda>e. case e of ExecuteHandlersOnce _ _ outs \<Rightarrow> Some outs | _ \<Rightarrow> None) evs"

definition sleeps_of :: "('lc, 'st, 'hid, 'x, 'r) event list \<Rightarrow> real list" where
  "sleeps_of evs = List.map_filter (\<lambda>e. case e of SleepOrWait d \<Rightarrow> Some d | _ \<Rightarrow> None) evs"

definition populate_calls :: "('lc, 'st, 'hid, 'x, 'r) event list \<Rightarrow> (string, 'r) dict list" where
  "populate_calls evs = List.map_filter (\<lambda>e. case e of Populate m \<Rightarrow> Some m | _ \<Rightarrow> None) evs"

definition is_logging :: "('lc, 'st, 'hid, 'x, 'r) event \<Rightarrow> bool" where
  "is_logging e = (case e of LogInfo _ \<Rightarrow> True | LogWarning _ \<Rightarrow> True | _ \<Rightarrow> False)"

text \<open>
  Every start of a batch (its first call is the registry lookup) comes after a
  \<open>wait_for_emptiness\<close> that returned since the batch before it; the flag says whether
  such a wait has been seen.
\<close>

fun batch_after_wait :: "bool \<Rightarrow> ('lc, 'st, 'hid, 'x, 'r) event list \<Rightarrow> bool" where
  "batch_after_wait waited [] = True"
| "batch_after_wait waited (WaitForEmptiness # es) = batch_after_wait True es"
| "batch_after_wait waited (GetHandlers a # es) = (waited \<and> batch_after_wait False es)"
| "batch_after_wait waited (e # es) = batch_after_wait waited es"

subsection \<open>A state and an environment to run the model on\<close>

text \<open>
  The class \<open>State\<close> of \<open>kopf.reactor.states\<close> and the handler descriptors of
  \<open>kopf.structs.handlers\<close> are not among the sources: \<open>run_activity\<close> takes them as
  parameters. The definitions below give the state that the spec describes, to run the
  model on and to show that the premises made about the parameters can be met.
\<close>

text \<open>
  Modelled from the spec: the handler descriptor (\<open>kopf.structs.handlers\<close>, not among the
  sources), of which the state needs its id, unique within a registry.
\<close>

record 'hid ActivityHandler =
  handler_id :: 'hid

text \<open>
  Modelled from the spec: \<open>State\<close> (\<open>kopf.reactor.states\<close>, not among the sources) maps
  every handler id to its latest outcome; \<open>None\<close> is the pending handler that has no
  outcome yet.
\<close>

type_synonym ('hid, 'x, 'r) State = "('hid, ('x, 'r) HandlerOutcome option) dict"

text \<open>
  Modelled from the spec: \<open>State.from_scratch\<close> (not among the sources) initialises every
  handler to pending.
\<close>

definition State_from_scratch :: "'hid ActivityHandler list \<Rightarrow> ('hid, 'x, 'r) State" where
  "State_from_scratch handlers = dict_of_items (map (\<lambda>h. (handler_id h, None)) handlers)"

text \<open>
  Modelled from the spec: \<open>State.with_outcomes\<close> (not among the sources) gives a new state
  where each handler named in the new outcomes is overwritten and all others keep their
  outcome.
\<close>

definition State_with_outcomes ::
  "('hid, 'x, 'r) State \<Rightarrow> ('hid, 'x, 'r) outcomes \<Rightarrow> ('hid, 'x, 'r) State" where
  "State_with_outcomes s new = dict_update s (map (\<lambda>(k, outcome). (k, Some outcome)) new)"

text \<open>
  Modelled from the spec: \<open>State.done\<close> (not among the sources) is true iff every handler's
  latest outcome is a success or a permanent failure, that is a final one.
\<close>

definition State_done :: "('hid, 'x, 'r) State \<Rightarrow> bool" where
  "State_done s = list_all (\<lambda>(k, latest). case latest of None \<Rightarrow> False | Some outcome \<Rightarrow> final outcome) s"

text \<open>
  Modelled from the spec: \<open>State.delay\<close> (not among the sources) is the minimum positive
  retry delay among the handlers with a temporary failure, or \<open>None\<close> if no handler is
  pending a delayed retry.
\<close>

definition State_delay :: "('hid, 'x, 'r) State \<Rightarrow> real option" where
  "State_delay s =
    (case List.map_filter
            (\<lambda>(k, latest). case latest of
                None \<Rightarrow> None
              | Some outcome \<Rightarrow>
                  (case delay outcome of
                    None \<Rightarrow> None
                  | Some d \<Rightarrow> if \<not> final outcome \<and> 0 < d then Some d else None)) s of
      [] \<Rightarrow> None
    | d # ds \<Rightarrow> Some (fold min ds d))"

text \<open>Modelled from the spec: the four operations of \<open>State\<close> above, as one record.\<close>

definition State_ops :: "('hid ActivityHandler, ('hid, 'x, 'r) State, 'hid, 'x, 'r) state_ops" where
  "State_ops = \<lparr>from_scratch = State_from_scratch, state_done = State_done,
                state_delay = State_delay, with_outcomes = State_with_outcomes\<rparr>"

text \<open>
  A scripted environment: the world holds the outcomes that the passes still to come will
  return, and the vault's entries. The registry is the lookup function itself, handler ids
  are strings, and a wait for emptiness returns once the vault has been emptied.
\<close>

record ('hid, 'x, 'r) scripted =
  script :: "('hid, 'x, 'r) outcomes list"
  vault :: "(string, 'r) dict"

definition scripted_env ::
  "real \<Rightarrow> (Activity \<Rightarrow> string ActivityHandler list, unit, unit, string ActivityHandler,
            (string, string, string) State, string, string, string,
            (string, string, string) scripted) env" where
  "scripted_env cap =
    \<lparr>get_handlers = (\<lambda>registry activity. registry activity),
     execute_handlers_once = (\<lambda>lifecycle settings handlers cause state w.
        case script w of [] \<Rightarrow> ([], w) | outs # rest \<Rightarrow> (outs, w\<lparr>script := rest\<rparr>)),
     sleep_or_wait = (\<lambda>d w. w),
     WAITING_KEEPALIVE_INTERVAL = cap,
     all_at_once = (),
     vault_bool = (\<lambda>w. vault w \<noteq> []),
     wait_for_emptiness = (\<lambda>w. w\<lparr>vault := []\<rparr>),
     populate = (\<lambda>credentials w. w\<lparr>vault := credentials\<rparr>),
     str_of = (\<lambda>k. k),
     activity_value = (\<lambda>activity. case activity of
        STARTUP \<Rightarrow> ''startup'' | CLEANUP \<Rightarrow> ''cleanup'' | AUTHENTICATION \<Rightarrow> ''authentication'')\<rparr>"

definition succeeded :: "'r option \<Rightarrow> ('x, 'r) HandlerOutcome" where
  "succeeded r = \<lparr>final = True, delay = None, result = r, exception = None\<rparr>"

definition failed_permanently :: "'x \<Rightarrow> ('x, 'r) HandlerOutcome" where
  "failed_permanently e = \<lparr>final = True, delay = None, result = None, exception = Some e\<rparr>"

definition failed_temporarily :: "'x \<Rightarrow> real \<Rightarrow> ('x, 'r) HandlerOutcome" where
  "failed_temporarily e d = \<lparr>final = False, delay = Some d, result = None, exception = Some e\<rparr>"

subsection \<open>Notions used in the statements\<close>

text \<open>The keys of a dict that was filled by these assignments: each key where it came first.\<close>

definition first_seen :: "'a list \<Rightarrow> 'a list" where
  "first_seen xs = rev (remdups (rev xs))"

text \<open>
  The exceptions in the order in which the run observed them: pass after pass, and within a
  pass in the order of the outcomes that the tick returned.
\<close>

definition observed_exceptions :: "('lc, 'st, 'hid, 'x, 'r) event list \<Rightarrow> 'x list" where
  "observed_exceptions evs = concat (map exceptions_of (passes_of evs))"

text \<open>The dict that \<open>outcomes.update\<close> builds from the outcomes of the passes, in their order.\<close>

definition merged :: "('hid, 'x, 'r) outcomes list \<Rightarrow> ('hid, 'x, 'r) outcomes" where
  "merged passes = foldl dict_update [] passes"

text \<open>The calls that one pass of the loop adds to the log.\<close>

definition pass_events ::
  "('h, 'st, 'hid, 'x, 'r) state_ops \<Rightarrow> ('reg, 'set, 'lc, 'h, 'st, 'hid, 'x, 'r, 'w) env \<Rightarrow>
   'lc \<Rightarrow> 'set \<Rightarrow> 'h list \<Rightarrow> 'set ActivityCause \<Rightarrow>
   ('lc, 'st, 'hid, 'x, 'r, 'w) loop_vars \<Rightarrow> ('lc, 'st, 'hid, 'x, 'r) event list" where
  "pass_events S E lifecycle settings handlers cause v =
    (case execute_handlers_once E lifecycle settings handlers cause (lv_state v) (lv_world v) of
      (current_outcomes, w1) \<Rightarrow>
        ExecuteHandlersOnce lifecycle (lv_state v) current_outcomes #
        (case state_delay S (with_outcomes S (lv_state v) current_outcomes) of
          None \<Rightarrow> []
        | Some d \<Rightarrow> if d \<noteq> 0 then [SleepOrWait (min d (WAITING_KEEPALIVE_INTERVAL E))] else []))"

text \<open>Two handlers, and worlds scripted for the runs used below.\<close>

definition two_handlers :: "Activity \<Rightarrow> string ActivityHandler list" where
  "two_handlers activity = [\<lparr>handler_id = ''h1''\<rparr>, \<lparr>handler_id = ''h2''\<rparr>]"

definition no_handlers :: "Activity \<Rightarrow> string ActivityHandler list" where
  "no_handlers activity = []"

definition world_all_succeed :: "(string, string, string) scripted" where
  "world_all_succeed =
    \<lparr>script = [[(''h1'', succeeded (Some ''X'')), (''h2'', succeeded None)]], vault = []\<rparr>"

definition world_one_fails :: "(string, string, string) scripted" where
  "world_one_fails =
    \<lparr>script = [[(''h1'', succeeded (Some ''X'')), (''h2'', failed_permanently ''E'')]],
     vault = []\<rparr>"

definition world_retries :: "(string, string, string) scripted" where
  "world_retries =
    \<lparr>script = [[(''h1'', failed_temporarily ''E1'' 3600), (''h2'', failed_permanently ''E2'')],
               [(''h1'', failed_permanently ''E3'')]],
     vault = []\<rparr>"

definition world_second_pass :: "(string, string, string) scripted" where
  "world_second_pass =
    \<lparr>script = [[(''h1'', succeeded (Some ''X'')), (''h2'', failed_temporarily ''E'' 1)],
               [(''h2'', succeeded (Some ''Y''))]],
     vault = []\<rparr>"

definition world_two_rounds :: "(string, string, string) scripted" where
  "world_two_rounds =
    \<lparr>script = [[(''h1'', succeeded (Some ''X'')), (''h2'', succeeded (Some ''Y''))],
               [(''h1'', failed_permanently ''E''), (''h2'', succeeded (Some ''Z''))]],
     vault = [(''h0'', ''W'')]\<rparr>"

text \<open>The log that \<open>authenticator_upto\<close> has reached, and a run without its logging calls.\<close>

definition upto_log ::
  "((('hid, 'x, 'r) ActivityError \<times> 'w \<times> ('lc, 'st, 'hid, 'x, 'r) event list)
     + ('lc, 'st, 'hid, 'x, 'r, 'w) auth_vars) \<Rightarrow> ('lc, 'st, 'hid, 'x, 'r) event list" where
  "upto_log r = (case r of Inl (err, w', evs) \<Rightarrow> evs | Inr v \<Rightarrow> av_log v)"

definition without_logging ::
  "('a \<times> 'w \<times> ('lc, 'st, 'hid, 'x, 'r) event list) option \<Rightarrow>
   ('a \<times> 'w \<times> ('lc, 'st, 'hid, 'x, 'r) event list) option" where
  "without_logging r = map_option (\<lambda>(res, w', evs). (res, w', filter (\<lambda>e. \<not> is_logging e) evs)) r"

text \<open>\<open>str\<close> applied to the keys of the results, as \<open>authenticate\<close> does for the vault.\<close>

definition stringified :: "('hid \<Rightarrow> string) \<Rightarrow> ('hid, 'r) dict \<Rightarrow> (string, 'r) dict" where
  "stringified str results = map (\<lambda>(k, info). (str k, info)) results"

text \<open>The events of a pass: the tick and the sleep.\<close>

definition is_pass_event :: "('lc, 'st, 'hid, 'x, 'r) event \<Rightarrow> bool" where
  "is_pass_event e = (case e of ExecuteHandlersOnce _ _ _ \<Rightarrow> True | SleepOrWait _ \<Rightarrow> True | _ \<Rightarrow> False)"

text \<open>What the attempt on \<open>world_one_fails\<close> raises, and its log.\<close>

definition one_fails_error :: "(string, string, string) ActivityError" where
  "one_fails_error =
    \<lparr>err_msg = ''One or more handlers failed.'',
     err_outcomes = [(''h1'', succeeded (Some ''X'')), (''h2'', failed_permanently ''E'')],
     err_cause = ''E''\<rparr>"

definition one_fails_log ::
  "(unit, (string, string, string) State, string, string, string) event list" where
  "one_fails_log =
    [WaitForEmptiness, LogInfo ''Re-authentication has been initiated.'',
     GetHandlers AUTHENTICATION,
     ExecuteHandlersOnce () [(''h1'', None), (''h2'', None)]
       [(''h1'', succeeded (Some ''X'')), (''h2'', failed_permanently ''E'')]]"

text \<open>What the run on \<open>world_retries\<close> raises, and its log.\<close>

definition retries_error :: "(string, string, string) ActivityError" where
  "retries_error =
    \<lparr>err_msg = ''One or more handlers failed.'',
     err_outcomes = [(''h1'', failed_permanently ''E3''), (''h2'', failed_permanently ''E2'')],
     err_cause = ''E3''\<rparr>"

definition retries_log ::
  "(unit, (string, string, string) State, string, string, string) event list" where
  "retries_log =
    [GetHandlers AUTHENTICATION,
     ExecuteHandlersOnce () [(''h1'', None), (''h2'', None)]
       [(''h1'', failed_temporarily ''E1'' 3600), (''h2'', failed_permanently ''E2'')],
     SleepOrWait 10,
     ExecuteHandlersOnce ()
       [(''h1'', Some (failed_temporarily ''E1'' 3600)), (''h2'', Some (failed_permanently ''E2''))]
       [(''h1'', failed_permanently ''E3'')]]"

text \<open>The log of the batch on \<open>world_second_pass\<close>.\<close>

definition second_pass_log ::
  "(unit, (string, string, string) State, string, string, string) event list" where
  "second_pass_log =
    [GetHandlers AUTHENTICATION,
     ExecuteHandlersOnce () [(''h1'', None), (''h2'', None)]
       [(''h1'', succeeded (Some ''X'')), (''h2'', failed_temporarily ''E'' 1)],
     SleepOrWait 1,
     ExecuteHandlersOnce ()
       [(''h1'', Some (succeeded (Some ''X''))), (''h2'', Some (failed_temporarily ''E'' 1))]
       [(''h2'', succeeded (Some ''Y''))]]"

text \<open>The log of the attempt on \<open>world_all_succeed\<close>.\<close>

definition all_succeed_log ::
  "(unit, (string, string, string) State, string, string, string) event list" where
  "all_succeed_log =
    [WaitForEmptiness, LogInfo ''Re-authentication has been initiated.'',
     GetHandlers AUTHENTICATION,
     ExecuteHandlersOnce () [(''h1'', None), (''h2'', None)]
       [(''h1'', succeeded (Some ''X'')), (''h2'', succeeded None)],
     LogInfo ''Re-authentication has finished.'',
     Populate [(''h1'', ''X'')]]"

text \<open>What the second iteration on \<open>world_two_rounds\<close> raises, and the log up to there.\<close>

definition two_rounds_error :: "(string, string, string) ActivityError" where
  "two_rounds_error =
    \<lparr>err_msg = ''One or more handlers failed.'',
     err_outcomes = [(''h1'', failed_permanently ''E''), (''h2'', succeeded (Some ''Z''))],
     err_cause = ''E''\<rparr>"

definition first_round_log ::
  "(unit, (string, string, string) State, string, string, string) event list" where
  "first_round_log =
    [WaitForEmptiness, LogInfo ''Re-authentication has been initiated.'',
     GetHandlers AUTHENTICATION,
     ExecuteHandlersOnce () [(''h1'', None), (''h2'', None)]
       [(''h1'', succeeded (Some ''X'')), (''h2'', succeeded (Some ''Y''))],
     LogInfo ''Re-authentication has finished.'',
     Populate [(''h1'', ''X''), (''h2'', ''Y'')]]"

definition second_round_batch_log ::
  "(unit, (string, string, string) State, string, string, string) event list" where
  "second_round_batch_log =
    [GetHandlers AUTHENTICATION,
     ExecuteHandlersOnce () [(''h1'', None), (''h2'', None)]
       [(''h1'', failed_permanently ''E''), (''h2'', succeeded (Some ''Z''))]]"

definition two_rounds_log ::
  "(unit, (string, string, string) State, string, string, string) event list" where
  "two_rounds_log =
    first_round_log @
    [WaitForEmptiness, LogInfo ''Re-authentication has been initiated.''] @ second_round_batch_log"

definition after_first_round ::
  "(unit, (string, string, string) State, string, string, string, (string, string, string) scripted) auth_vars" where
  "after_first_round =
    \<lparr>av_counter = 2,
     av_world = \<lparr>script = [[(''h1'', failed_permanently ''E''), (''h2'', succeeded (Some ''Z''))]],
                 vault = [(''h1'', ''X''), (''h2'', ''Y'')]\<rparr>,
     av_log = first_round_log\<rparr>"

text \<open>The variables after the first iteration on \<open>world_second_pass\<close>, whose vault starts empty.\<close>

definition after_initial_round ::
  "(unit, (string, string, string) State, string, string, string, (string, string, string) scripted) auth_vars" where
  "after_initial_round =
    \<lparr>av_counter = 1,
     av_world = \<lparr>script = [], vault = [(''h1'', ''X''), (''h2'', ''Y'')]\<rparr>,
     av_log =
       [WaitForEmptiness, LogInfo ''Initial authentication has been initiated.''] @
       second_pass_log @
       [LogInfo ''Initial authentication has finished.'',
        Populate [(''h1'', ''X''), (''h2'', ''Y'')]]\<rparr>"

section \<open>Lemmas\<close>

subsection \<open>Dictionaries and lists\<close>

lemma dict_update_Nil [simp]: "dict_update d [] = d"
  by (simp add: dict_update_def)

lemma dict_update_Cons [simp]: "dict_update d ((k, v) # u) = dict_update (AList.update k v d) u"
  by (simp add: dict_update_def)

lemma dict_update_append: "dict_update d (u @ u') = dict_update (dict_update d u) u'"
  by (simp add: dict_update_def)

lemma dict_update_snoc: "dict_update d (u @ [(k, v)]) = AList.update k v (dict_update d u)"
  by (simp add: dict_update_append)

lemma distinct_dict_update: "distinct (map fst d) \<Longrightarrow> distinct (map fst (dict_update d u))"
  by (induction u arbitrary: d) (auto simp: distinct_update)

lemma keys_dict_update: "fst ` set (dict_update d u) = fst ` set d \<union> fst ` set u"
proof (induction u arbitrary: d)
  case Nil
  show ?case by simp
next
  case (Cons p u)
  obtain k v where p: "p = (k, v)" by (cases p)
  show ?case unfolding p by (simp add: Cons.IH dom_update)
qed

lemma update_fresh: "k \<notin> fst ` set d \<Longrightarrow> AList.update k v d = d @ [(k, v)]"
  by (induction d) auto

lemma dict_update_fresh:
  "distinct (map fst u) \<Longrightarrow> fst ` set d \<inter> fst ` set u = {} \<Longrightarrow> dict_update d u = d @ u"
proof (induction u arbitrary: d)
  case Nil
  then show ?case by simp
next
  case (Cons p u)
  obtain k v where p: "p = (k, v)" by (cases p)
  from Cons.prems have fresh: "k \<notin> fst ` set d" by (auto simp: p)
  from Cons.prems have "fst ` set (d @ [(k, v)]) \<inter> fst ` set u = {}"
    by (auto simp: p image_iff)
  with Cons.IH [of "d @ [(k, v)]"] Cons.prems show ?case
    by (simp add: p update_fresh [OF fresh])
qed

lemma dict_of_items_distinct: "distinct (map fst xs) \<Longrightarrow> dict_of_items xs = xs"
  by (simp add: dict_of_items_def dict_update_fresh)

lemma set_update_cases:
  "distinct (map fst d) \<Longrightarrow> (k', v') \<in> set (AList.update k v d) \<Longrightarrow>
   (k', v') = (k, v) \<or> ((k', v') \<in> set d \<and> k' \<noteq> k)"
  by (induction d) (auto split: if_splits simp: image_iff)

lemma set_dict_update_cases:
  "distinct (map fst d) \<Longrightarrow> (k, v) \<in> set (dict_update d u) \<Longrightarrow>
   (k, v) \<in> set u \<or> ((k, v) \<in> set d \<and> k \<notin> fst ` set u)"
proof (induction u arbitrary: d)
  case Nil
  then show ?case by simp
next
  case (Cons p u)
  obtain a b where p: "p = (a, b)" by (cases p)
  from Cons.prems have "(k, v) \<in> set (dict_update (AList.update a b d) u)" by (simp add: p)
  moreover have "distinct (map fst (AList.update a b d))"
    using Cons.prems(1) by (rule distinct_update)
  ultimately have "(k, v) \<in> set u \<or> ((k, v) \<in> set (AList.update a b d) \<and> k \<notin> fst ` set u)"
    using Cons.IH by blast
  then show ?case
  proof
    assume "(k, v) \<in> set u"
    then show ?thesis by simp
  next
    assume *: "(k, v) \<in> set (AList.update a b d) \<and> k \<notin> fst ` set u"
    with set_update_cases [OF Cons.prems(1), of k v a b] show ?thesis by (auto simp: p)
  qed
qed

lemma first_seen_snoc:
  "first_seen (xs @ [k]) = (if k \<in> set xs then first_seen xs else first_seen xs @ [k])"
  by (simp add: first_seen_def)

lemma set_first_seen [simp]: "set (first_seen xs) = set xs"
  by (simp add: first_seen_def)

lemma first_seen_distinct: "distinct xs \<Longrightarrow> first_seen xs = xs"
  by (simp add: first_seen_def distinct_remdups_id)

lemma keys_order_dict_update:
  "map fst (dict_update d u) = first_seen (map fst d @ map fst u)" if "distinct (map fst d)"
proof (induction u rule: rev_induct)
  case Nil
  from that show ?case by (simp add: first_seen_distinct)
next
  case (snoc p u)
  obtain k v where p: "p = (k, v)" by (cases p)
  have "set (map fst (dict_update d u)) = set (map fst d) \<union> set (map fst u)"
    using keys_dict_update [of d u] by simp
  then show ?case
    using snoc.IH first_seen_snoc [of "map fst d @ map fst u" k]
    by (simp add: p dict_update_snoc update_keys del: set_map)
qed

lemma map_filter_append: "List.map_filter f (xs @ ys) = List.map_filter f xs @ List.map_filter f ys"
  by (simp add: List.map_filter_def)

lemma set_map_filter: "set (List.map_filter f xs) = {y. \<exists>x \<in> set xs. f x = Some y}"
  by (induction xs) (auto simp: List.map_filter_simps split: option.splits)

lemma map_filter_Cons_first:
  "List.map_filter f xs = y # ys \<Longrightarrow>
   \<exists>pre x post. xs = pre @ x # post \<and> f x = Some y \<and> (\<forall>z \<in> set pre. f z = None)"
proof (induction xs)
  case Nil
  then show ?case by (simp add: List.map_filter_simps)
next
  case (Cons a xs)
  show ?case
  proof (cases "f a")
    case None
    with Cons.prems have "List.map_filter f xs = y # ys" by (simp add: List.map_filter_simps)
    from Cons.IH [OF this] obtain pre x post
      where "xs = pre @ x # post" "f x = Some y" "\<forall>z \<in> set pre. f z = None" by blast
    with None have "a # xs = (a # pre) @ x # post \<and> f x = Some y \<and> (\<forall>z \<in> set (a # pre). f z = None)"
      by simp
    then show ?thesis by blast
  next
    case (Some b)
    with Cons.prems have "b = y" by (simp add: List.map_filter_simps)
    with Some have "a # xs = [] @ a # xs \<and> f a = Some y \<and> (\<forall>z \<in> set []. f z = None)" by simp
    then show ?thesis by blast
  qed
qed

lemma map_filter_Nil_iff: "List.map_filter f xs = [] \<longleftrightarrow> (\<forall>x \<in> set xs. f x = None)"
  by (induction xs) (auto simp: List.map_filter_simps split: option.splits)

subsection \<open>The loop of \<open>run_activity\<close>\<close>

lemma run_loop_rule:
  assumes "run_loop S E lifecycle settings handlers cause v = Some v'"
    and "P v"
    and "\<And>u. P u \<Longrightarrow> \<not> state_done S (lv_state u) \<Longrightarrow>
           P (loop_body S E lifecycle settings handlers cause u)"
  shows "P v' \<and> state_done S (lv_state v')"
proof -
  let ?Q = "\<lambda>S E lifecycle settings handlers cause v v'.
    (\<forall>u. P u \<longrightarrow> \<not> state_done S (lv_state u) \<longrightarrow>
           P (loop_body S E lifecycle settings handlers cause u)) \<longrightarrow> P v \<longrightarrow>
    P v' \<and> state_done S (lv_state v')"
  have "?Q S E lifecycle settings handlers cause v v'"
    by (rule run_loop.raw_induct [where P = ?Q, OF _ assms(1)]) (auto split: if_splits)
  with assms show ?thesis by blast
qed

lemma run_loop_done:
  "state_done S (lv_state v) \<Longrightarrow> run_loop S E lifecycle settings handlers cause v = Some v"
  by (simp add: run_loop.simps)

lemma run_loop_step:
  "\<not> state_done S (lv_state v) \<Longrightarrow>
   run_loop S E lifecycle settings handlers cause v =
   run_loop S E lifecycle settings handlers cause (loop_body S E lifecycle settings handlers cause v)"
  by (subst run_loop.simps) simp

lemma lv_log_loop_body:
  "lv_log (loop_body S E lifecycle settings handlers cause v) =
   lv_log v @ pass_events S E lifecycle settings handlers cause v"
  by (simp add: loop_body_def pass_events_def Let_def split: prod.splits option.splits)

lemma lv_outcomes_loop_body:
  "lv_outcomes (loop_body S E lifecycle settings handlers cause v) =
   dict_update (lv_outcomes v)
     (fst (execute_handlers_once E lifecycle settings handlers cause (lv_state v) (lv_world v)))"
  by (simp add: loop_body_def Let_def split: prod.splits option.splits)

lemma lv_state_loop_body:
  "lv_state (loop_body S E lifecycle settings handlers cause v) =
   with_outcomes S (lv_state v)
     (fst (execute_handlers_once E lifecycle settings handlers cause (lv_state v) (lv_world v)))"
  by (simp add: loop_body_def Let_def split: prod.splits option.splits)

lemma passes_of_append: "passes_of (xs @ ys) = passes_of xs @ passes_of ys"
  by (simp add: passes_of_def map_filter_append)

lemma sleeps_of_append: "sleeps_of (xs @ ys) = sleeps_of xs @ sleeps_of ys"
  by (simp add: sleeps_of_def map_filter_append)

lemma populate_calls_append: "populate_calls (xs @ ys) = populate_calls xs @ populate_calls ys"
  by (simp add: populate_calls_def map_filter_append)

lemma passes_of_pass_events:
  "passes_of (pass_events S E lifecycle settings handlers cause v) =
   [fst (execute_handlers_once E lifecycle settings handlers cause (lv_state v) (lv_world v))]"
  by (simp add: pass_events_def passes_of_def List.map_filter_simps split: prod.splits option.splits)

lemma sleeps_of_pass_events:
  "\<forall>s \<in> set (sleeps_of (pass_events S E lifecycle settings handlers cause v)).
     s \<le> WAITING_KEEPALIVE_INTERVAL E"
  by (simp add: pass_events_def sleeps_of_def List.map_filter_simps split: prod.splits option.splits)

lemma populate_calls_pass_events:
  "populate_calls (pass_events S E lifecycle settings handlers cause v) = []"
  by (simp add: pass_events_def populate_calls_def List.map_filter_simps split: prod.splits option.splits)

lemma run_loop_outcomes:
  assumes "run_loop S E lifecycle settings handlers cause v = Some v'"
    and "lv_outcomes v = merged (passes_of (lv_log v))"
  shows "lv_outcomes v' = merged (passes_of (lv_log v'))"
  using run_loop_rule [OF assms(1), where P = "\<lambda>u. lv_outcomes u = merged (passes_of (lv_log u))"] assms(2)
  by (simp add: lv_log_loop_body lv_outcomes_loop_body passes_of_append passes_of_pass_events merged_def)


lemma first_seen_idem_append: "first_seen (first_seen xs @ ys) = first_seen (xs @ ys)"
proof (induction ys rule: rev_induct)
  case Nil
  show ?case by (simp add: first_seen_def distinct_remdups_id)
next
  case (snoc k ys)
  from snoc.IH first_seen_snoc [of "first_seen xs @ ys" k] first_seen_snoc [of "xs @ ys" k]
  show ?case by simp
qed

lemma distinct_merged_aux: "distinct (map fst d) \<Longrightarrow> distinct (map fst (foldl dict_update d ps))"
  by (induction ps arbitrary: d) (simp_all add: distinct_dict_update)

lemma distinct_merged: "distinct (map fst (merged ps))"
  by (simp add: merged_def distinct_merged_aux)

lemma merged_snoc: "merged (ps @ [p]) = dict_update (merged ps) p"
  by (simp add: merged_def)

lemma keys_merged: "fst ` set (merged ps) = (\<Union>p \<in> set ps. fst ` set p)"
  by (induction ps rule: rev_induct) (auto simp: merged_snoc keys_dict_update, simp add: merged_def)

lemma keys_order_merged: "map fst (merged ps) = first_seen (concat (map (map fst) ps))"
proof (induction ps rule: rev_induct)
  case Nil
  show ?case by (simp add: merged_def first_seen_def)
next
  case (snoc p ps)
  have "map fst (merged (ps @ [p])) = first_seen (map fst (merged ps) @ map fst p)"
    by (simp add: merged_snoc keys_order_dict_update distinct_merged)
  also have "\<dots> = first_seen (concat (map (map fst) ps) @ map fst p)"
    by (simp add: snoc.IH first_seen_idem_append)
  finally show ?case by simp
qed

lemma run_activity_SomeD:
  assumes "run_activity S E lifecycle registry settings activity w = Some (res, w', evs)"
  obtains v where
    "run_loop S E lifecycle settings (get_handlers E registry activity)
       (activity_cause E settings activity) (initial_vars S E registry activity w) = Some v"
    "w' = lv_world v" "evs = lv_log v"
    "res = (case exceptions_of (lv_outcomes v) of
              e # _ \<Rightarrow> Inl \<lparr>err_msg = ''One or more handlers failed.'',
                             err_outcomes = lv_outcomes v, err_cause = e\<rparr>
            | [] \<Rightarrow> Inr (results_of (lv_outcomes v)))"
  using assms by (auto simp: run_activity_def split: option.splits list.splits)

lemma run_activity_outcomes:
  assumes "run_loop S E lifecycle settings handlers cause (initial_vars S E registry activity w) = Some v"
  shows "lv_outcomes v = merged (passes_of (lv_log v))"
  by (rule run_loop_outcomes [OF assms])
     (simp add: initial_vars_def passes_of_def merged_def List.map_filter_simps)

lemma exceptions_of_Nil_iff:
  "exceptions_of outs = [] \<longleftrightarrow> (\<forall>(k, outcome) \<in> set outs. exception outcome = None)"
  by (auto simp: exceptions_of_def map_filter_Nil_iff)


lemma run_loop_sleeps:
  assumes "run_loop S E lifecycle settings handlers cause v = Some v'"
    and "\<forall>s \<in> set (sleeps_of (lv_log v)). s \<le> WAITING_KEEPALIVE_INTERVAL E"
  shows "\<forall>s \<in> set (sleeps_of (lv_log v')). s \<le> WAITING_KEEPALIVE_INTERVAL E"
  using run_loop_rule [OF assms(1),
      where P = "\<lambda>u. \<forall>s \<in> set (sleeps_of (lv_log u)). s \<le> WAITING_KEEPALIVE_INTERVAL E"]
    assms(2) sleeps_of_pass_events [of S E lifecycle settings handlers cause]
  by (auto simp: lv_log_loop_body sleeps_of_append)

lemma passes_sleeps:
  assumes "\<forall>s \<in> set (sleeps_of (lv_log v)). s \<le> WAITING_KEEPALIVE_INTERVAL E"
  shows "\<forall>s \<in> set (sleeps_of (lv_log ((loop_body S E lifecycle settings handlers cause ^^ n) v))).
           s \<le> WAITING_KEEPALIVE_INTERVAL E"
proof (induction n)
  case 0
  from assms show ?case by simp
next
  case (Suc n)
  with sleeps_of_pass_events [of S E lifecycle settings handlers cause]
  show ?case by (auto simp: lv_log_loop_body sleeps_of_append)
qed

lemma sleeps_of_initial_vars: "sleeps_of (lv_log (initial_vars S E registry activity w)) = []"
  by (simp add: initial_vars_def sleeps_of_def List.map_filter_simps)

lemma loop_body_sleep:
  assumes "state_delay S (lv_state (loop_body S E lifecycle settings handlers cause v)) = Some d"
    and "d \<noteq> 0"
  shows "pass_events S E lifecycle settings handlers cause v =
         [ExecuteHandlersOnce lifecycle (lv_state v)
            (fst (execute_handlers_once E lifecycle settings handlers cause (lv_state v) (lv_world v))),
          SleepOrWait (min d (WAITING_KEEPALIVE_INTERVAL E))]"
    and "lv_world (loop_body S E lifecycle settings handlers cause v) =
         sleep_or_wait E (min d (WAITING_KEEPALIVE_INTERVAL E))
           (snd (execute_handlers_once E lifecycle settings handlers cause (lv_state v) (lv_world v)))"
  using assms
  by (auto simp: lv_state_loop_body pass_events_def loop_body_def Let_def split: prod.splits option.splits)

lemma results_of_distinct:
  assumes "distinct (map fst outs)"
  shows "results_of outs = List.map_filter (\<lambda>(k, outcome). map_option (Pair k) (result outcome)) outs"
    and "distinct (map fst (results_of outs))"
proof -
  let ?f = "\<lambda>(k, outcome). map_option (Pair k) (result outcome) :: ('a \<times> 'c) option"
  have "distinct (map fst (List.map_filter ?f xs))" if "distinct (map fst xs)" for xs :: "('a, 'b, 'c) outcomes"
    using that
  proof (induction xs)
    case Nil
    show ?case by (simp add: List.map_filter_simps)
  next
    case (Cons x xs)
    obtain a outcome where x: "x = (a, outcome)" by (cases x)
    have "fst ` set (List.map_filter ?f xs) \<subseteq> fst ` set xs"
      by (force simp: set_map_filter)
    moreover from Cons.prems have "a \<notin> fst ` set xs" by (simp add: x)
    ultimately have "a \<notin> fst ` set (List.map_filter ?f xs)" by blast
    with Cons show ?case
      by (cases "result outcome") (simp_all add: x List.map_filter_simps)
  qed
  from this [OF assms] have d: "distinct (map fst (List.map_filter ?f outs))" .
  show "results_of outs = List.map_filter ?f outs"
    using d by (simp add: results_of_def dict_of_items_distinct)
  with d show "distinct (map fst (results_of outs))" by simp
qed

lemma run_activity_raised:
  assumes "run_activity S E lifecycle registry settings activity w = Some (res, w', evs)"
  shows "isl res \<longleftrightarrow> (\<exists>(k, outcome) \<in> set (merged (passes_of evs)). exception outcome \<noteq> None)"
    and "res = Inl err \<Longrightarrow> err_outcomes err = merged (passes_of evs)"
proof -
  from assms obtain v where
    loop: "run_loop S E lifecycle settings (get_handlers E registry activity)
       (activity_cause E settings activity) (initial_vars S E registry activity w) = Some v"
    and evs: "evs = lv_log v"
    and res: "res = (case exceptions_of (lv_outcomes v) of
              e # _ \<Rightarrow> Inl \<lparr>err_msg = ''One or more handlers failed.'',
                             err_outcomes = lv_outcomes v, err_cause = e\<rparr>
            | [] \<Rightarrow> Inr (results_of (lv_outcomes v)))"
    by (rule run_activity_SomeD)
  have acc: "lv_outcomes v = merged (passes_of evs)"
    unfolding evs by (rule run_activity_outcomes [OF loop])
  have "isl res \<longleftrightarrow> exceptions_of (lv_outcomes v) \<noteq> []"
    by (simp add: res split: list.splits)
  then show "isl res \<longleftrightarrow> (\<exists>(k, outcome) \<in> set (merged (passes_of evs)). exception outcome \<noteq> None)"
    by (simp add: exceptions_of_Nil_iff acc split_beta)
  show "err_outcomes err = merged (passes_of evs)" if "res = Inl err"
    using that by (simp add: res acc split: list.splits) auto
qed

lemma run_loop_log:
  assumes "run_loop S E lifecycle settings handlers cause v = Some v'"
  shows "\<exists>rest. lv_log v' = lv_log v @ rest \<and> list_all is_pass_event rest"
proof -
  have "list_all is_pass_event (pass_events S E lifecycle settings handlers cause u)" for u
    by (simp add: pass_events_def is_pass_event_def split: prod.splits option.splits)
  then have step: "\<exists>rest. lv_log (loop_body S E lifecycle settings handlers cause u) = lv_log v @ rest
        \<and> list_all is_pass_event rest"
    if "\<exists>rest. lv_log u = lv_log v @ rest \<and> list_all is_pass_event rest" for u
    using that by (auto simp: lv_log_loop_body)
  from run_loop_rule [OF assms,
      where P = "\<lambda>u. \<exists>rest. lv_log u = lv_log v @ rest \<and> list_all is_pass_event rest"] step
  show ?thesis by simp
qed

lemma run_activity_log:
  assumes "run_activity S E lifecycle registry settings activity w = Some (res, w', evs)"
  shows "\<exists>rest. evs = GetHandlers activity # rest \<and> list_all is_pass_event rest"
proof -
  from assms obtain v where
    loop: "run_loop S E lifecycle settings (get_handlers E registry activity)
       (activity_cause E settings activity) (initial_vars S E registry activity w) = Some v"
    and evs: "evs = lv_log v"
    by (rule run_activity_SomeD)
  from run_loop_log [OF loop] show ?thesis
    by (simp add: evs initial_vars_def)
qed

lemma populate_calls_pass: "list_all is_pass_event xs \<Longrightarrow> populate_calls xs = []"
  by (induction xs) (auto simp: populate_calls_def is_pass_event_def List.map_filter_simps split: event.splits)

lemma filter_logging_pass: "list_all is_pass_event xs \<Longrightarrow> filter (\<lambda>e. \<not> is_logging e) xs = xs"
  by (induction xs) (auto simp: is_logging_def is_pass_event_def split: event.splits)

lemma batch_after_wait_pass:
  "list_all is_pass_event xs \<Longrightarrow> batch_after_wait b (xs @ ys) = batch_after_wait b ys"
  by (induction xs) (auto simp: is_pass_event_def split: event.splits)

lemma run_activity_populate_calls:
  "run_activity S E lifecycle registry settings activity w = Some (res, w', evs) \<Longrightarrow>
   populate_calls evs = []"
  by (auto dest!: run_activity_log simp: populate_calls_pass)
     (simp add: populate_calls_def List.map_filter_simps populate_calls_pass [unfolded populate_calls_def])

lemma run_activity_results:
  assumes "run_activity S E lifecycle registry settings activity w = Some (Inr results, w', evs)"
  shows "distinct (map fst results)"
    and "(k, r) \<in> set results \<longleftrightarrow>
         (\<exists>outcome. (k, outcome) \<in> set (merged (passes_of evs)) \<and> result outcome = Some r)"
proof -
  from assms obtain v where
    loop: "run_loop S E lifecycle settings (get_handlers E registry activity)
       (activity_cause E settings activity) (initial_vars S E registry activity w) = Some v"
    and evs: "evs = lv_log v"
    and res: "Inr results = (case exceptions_of (lv_outcomes v) of
              e # _ \<Rightarrow> Inl \<lparr>err_msg = ''One or more handlers failed.'',
                             err_outcomes = lv_outcomes v, err_cause = e\<rparr>
            | [] \<Rightarrow> Inr (results_of (lv_outcomes v)))"
    by (rule run_activity_SomeD)
  have acc: "lv_outcomes v = merged (passes_of evs)"
    unfolding evs by (rule run_activity_outcomes [OF loop])
  from res have results: "results = results_of (merged (passes_of evs))"
    by (simp add: acc split: list.splits)
  show "distinct (map fst results)"
    unfolding results by (rule results_of_distinct(2) [OF distinct_merged])
  show "(k, r) \<in> set results \<longleftrightarrow>
         (\<exists>outcome. (k, outcome) \<in> set (merged (passes_of evs)) \<and> result outcome = Some r)"
    unfolding results by (force simp: results_of_distinct(1) [OF distinct_merged] set_map_filter)
qed

subsection \<open>\<open>authenticate\<close>\<close>

lemma authenticate_raises:
  assumes "run_activity S E (all_at_once E) registry settings AUTHENTICATION (wait_for_emptiness E w)
           = Some (Inl err, w2, evs2)"
  shows "authenticate S E registry settings title w =
         Some (Inl err, w2, WaitForEmptiness # LogInfo (title @ '' has been initiated.'') # evs2)"
  using assms by (simp add: authenticate_def)

lemma authenticate_returns:
  assumes "run_activity S E (all_at_once E) registry settings AUTHENTICATION (wait_for_emptiness E w)
           = Some (Inr results, w2, evs2)"
  shows "authenticate S E registry settings title w =
         Some (Inr (), populate E (dict_of_items (stringified (str_of E) results)) w2,
               WaitForEmptiness # LogInfo (title @ '' has been initiated.'') # evs2 @
               [if results \<noteq> [] then LogInfo (title @ '' has finished.'')
                else LogWarning (title @ '' has failed: no credentials were retrieved from the login handlers.''),
                Populate (dict_of_items (stringified (str_of E) results))])"
  using assms by (simp add: authenticate_def stringified_def Let_def)

lemma authenticate_SomeD:
  assumes "authenticate S E registry settings title w = Some (res, w', evs)"
  obtains res2 w2 evs2 where
    "run_activity S E (all_at_once E) registry settings AUTHENTICATION (wait_for_emptiness E w)
     = Some (res2, w2, evs2)"
  using assms by (auto simp: authenticate_def Let_def split: option.splits)

lemma stringified_distinct:
  assumes "distinct (map fst results)" and "inj_on str (fst ` set results)"
  shows "dict_of_items (stringified str results) = stringified str results"
proof -
  have keys: "map fst (stringified str results) = map str (map fst results)"
    by (simp add: stringified_def split_beta)
  from assms have "distinct (map str (map fst results))"
    by (simp add: distinct_map del: map_map)
  then have "distinct (map fst (stringified str results))"
    by (simp only: keys)
  then show ?thesis by (rule dict_of_items_distinct)
qed

lemma authenticate_log:
  assumes "authenticate S E registry settings title w = Some (res, w', evs)"
  shows "\<exists>res2 w2 evs2 rest.
      run_activity S E (all_at_once E) registry settings AUTHENTICATION (wait_for_emptiness E w)
        = Some (res2, w2, evs2)
    \<and> evs = WaitForEmptiness # LogInfo (title @ '' has been initiated.'') # evs2 @ rest
    \<and> (rest = [] \<or> (\<exists>line m. rest = [line, Populate m] \<and> is_logging line))"
proof -
  from assms obtain res2 w2 evs2 where
    run: "run_activity S E (all_at_once E) registry settings AUTHENTICATION (wait_for_emptiness E w)
        = Some (res2, w2, evs2)"
    by (rule authenticate_SomeD)
  show ?thesis
  proof (cases res2)
    case (Inl err)
    from authenticate_raises [OF run [unfolded Inl], of title] assms run show ?thesis
      by auto
  next
    case (Inr results)
    from authenticate_returns [OF run [unfolded Inr], of title] assms run show ?thesis
      by (auto simp: is_logging_def)
  qed
qed

lemma batch_after_wait_logging:
  "is_logging e \<Longrightarrow> batch_after_wait b (e # xs) = batch_after_wait b xs"
  by (cases e) (simp_all add: is_logging_def)

lemma authenticate_batch_after_wait:
  assumes "authenticate S E registry settings title w = Some (res, w', evs)"
  shows "batch_after_wait b (evs @ later) = batch_after_wait False later"
proof -
  from authenticate_log [OF assms] obtain res2 w2 evs2 rest where
    run: "run_activity S E (all_at_once E) registry settings AUTHENTICATION (wait_for_emptiness E w)
        = Some (res2, w2, evs2)"
    and evs: "evs = WaitForEmptiness # LogInfo (title @ '' has been initiated.'') # evs2 @ rest"
    and rest: "rest = [] \<or> (\<exists>line m. rest = [line, Populate m] \<and> is_logging line)"
    by blast
  from run_activity_log [OF run] obtain passes where
    evs2: "evs2 = GetHandlers AUTHENTICATION # passes" and passes: "list_all is_pass_event passes"
    by blast
  have "batch_after_wait False (rest @ later) = batch_after_wait False later"
    using rest by (auto simp: batch_after_wait_logging)
  then show ?thesis
    by (simp add: evs evs2 batch_after_wait_pass [OF passes])
qed

lemma authenticator_body_log:
  assumes "authenticator_body S E registry settings v = Some r"
  shows "\<exists>res w' evs. authenticate S E registry settings (activity_title_of (av_counter v)) (av_world v)
           = Some (res, w', evs) \<and> upto_log r = av_log v @ evs"
  using assms
  by (auto simp: authenticator_body_def upto_log_def split: option.splits sum.splits)

lemma authenticator_upto_batch_after_wait:
  assumes "authenticator_upto n S E registry settings v = Some r"
    and "\<forall>later. batch_after_wait False (av_log v @ later) = batch_after_wait False later"
  shows "\<forall>later. batch_after_wait False (upto_log r @ later) = batch_after_wait False later"
  using assms
proof (induction n arbitrary: v)
  case 0
  then have r: "r = Inr v" by simp
  from "0.prems"(2) show ?case unfolding r upto_log_def by simp
next
  case (Suc n)
  from Suc.prems(1) obtain r1 where body: "authenticator_body S E registry settings v = Some r1"
    by (auto split: option.splits)
  from authenticator_body_log [OF body] obtain res w' evs where
    auth: "authenticate S E registry settings (activity_title_of (av_counter v)) (av_world v)
           = Some (res, w', evs)"
    and log1: "upto_log r1 = av_log v @ evs"
    by blast
  have step: "\<forall>later. batch_after_wait False (upto_log r1 @ later) = batch_after_wait False later"
    using Suc.prems(2) authenticate_batch_after_wait [OF auth] by (simp add: log1)
  show ?case
  proof (cases r1)
    case (Inl raised)
    with Suc.prems(1) body have "r = r1" by simp
    with step show ?thesis by simp
  next
    case (Inr v1)
    with Suc.prems(1) body have "authenticator_upto n S E registry settings v1 = Some r" by simp
    moreover from step Inr
    have "\<forall>later. batch_after_wait False (av_log v1 @ later) = batch_after_wait False later"
      by (simp add: upto_log_def)
    ultimately show ?thesis by (rule Suc.IH)
  qed
qed

subsection \<open>The loop of \<open>authenticator\<close>\<close>

lemma authenticator_loop_raises:
  assumes "authenticator_loop S E registry settings v = Some y"
  shows "isl y"
  by (rule authenticator_loop.raw_induct
        [where P = "\<lambda>S E registry settings v y. isl y", OF _ assms])
     (auto split: option.splits sum.splits)

lemma authenticator_loop_never_returns:
  "authenticator_loop S E registry settings v \<noteq> Some (Inr u)"
  using authenticator_loop_raises [of S E registry settings v "Inr u"] by auto

lemma authenticator_loop_unfold:
  "authenticator_loop S E registry settings v =
    (case authenticator_body S E registry settings v of
      None \<Rightarrow> None
    | Some (Inl raised) \<Rightarrow> Some (Inl raised)
    | Some (Inr v') \<Rightarrow> authenticator_loop S E registry settings v')"
  by (rule authenticator_loop.simps)

lemma authenticator_upto_loop:
  "authenticator_upto n S E registry settings v = Some (Inr v') \<Longrightarrow>
   authenticator_loop S E registry settings v = authenticator_loop S E registry settings v'"
proof (induction n arbitrary: v)
  case 0
  then show ?case by simp
next
  case (Suc n)
  from Suc.prems obtain v1 where
    body: "authenticator_body S E registry settings v = Some (Inr v1)"
    and rest: "authenticator_upto n S E registry settings v1 = Some (Inr v')"
    by (auto split: option.splits sum.splits)
  have "authenticator_loop S E registry settings v = authenticator_loop S E registry settings v1"
    by (subst authenticator_loop_unfold) (simp add: body)
  with Suc.IH [OF rest] show ?case by simp
qed

lemma authenticator_upto_raised:
  "authenticator_upto n S E registry settings v = Some (Inl raised) \<Longrightarrow>
   authenticator_loop S E registry settings v = Some (Inl raised)"
proof (induction n arbitrary: v)
  case 0
  then show ?case by simp
next
  case (Suc n)
  show ?case
  proof (cases "authenticator_body S E registry settings v")
    case None
    with Suc.prems show ?thesis by simp
  next
    case (Some r)
    show ?thesis
    proof (cases r)
      case (Inl raised')
      with Suc.prems Some have "raised' = raised" by simp
      with Some Inl show ?thesis
        by (subst authenticator_loop_unfold) simp
    next
      case (Inr v1)
      with Suc.prems Some have "authenticator_upto n S E registry settings v1 = Some (Inl raised)"
        by simp
      from Suc.IH [OF this] Some Inr show ?thesis
        by (subst authenticator_loop_unfold) simp
    qed
  qed
qed

lemma authenticator_upto_counter:
  "authenticator_upto n S E registry settings v = Some (Inr v') \<Longrightarrow>
   av_counter v' = av_counter v + int n"
proof (induction n arbitrary: v)
  case 0
  then show ?case by simp
next
  case (Suc n)
  from Suc.prems obtain v1 where
    body: "authenticator_body S E registry settings v = Some (Inr v1)"
    and rest: "authenticator_upto n S E registry settings v1 = Some (Inr v')"
    by (auto split: option.splits sum.splits)
  from body have "av_counter v1 = av_counter v + 1"
    by (auto simp: authenticator_body_def split: option.splits sum.splits)
  with Suc.IH [OF rest] show ?case by simp
qed

lemma authenticator_upto_Suc:
  "authenticator_upto n S E registry settings v0 = Some (Inr v) \<Longrightarrow>
   authenticator_upto (Suc n) S E registry settings v0 = authenticator_body S E registry settings v"
proof (induction n arbitrary: v0)
  case 0
  then have "v0 = v" by simp
  then show ?case
    by (auto split: option.splits sum.splits)
next
  case (Suc n)
  from Suc.prems obtain v1 where
    body: "authenticator_body S E registry settings v0 = Some (Inr v1)"
    and rest: "authenticator_upto n S E registry settings v1 = Some (Inr v)"
    by (auto split: option.splits sum.splits)
  have "authenticator_upto (Suc (Suc n)) S E registry settings v0 =
      authenticator_upto (Suc n) S E registry settings v1"
    by (simp add: body)
  with Suc.IH [OF rest] show ?case by simp
qed

lemma authenticator_body_first_lines:
  assumes "authenticator_body S E registry settings v = Some r"
  shows "\<exists>rest. upto_log r = av_log v @ WaitForEmptiness #
           LogInfo (activity_title_of (av_counter v) @ '' has been initiated.'') # rest"
proof -
  from authenticator_body_log [OF assms] obtain res w' evs where
    auth: "authenticate S E registry settings (activity_title_of (av_counter v)) (av_world v)
           = Some (res, w', evs)"
    and logged: "upto_log r = av_log v @ evs"
    by blast
  from authenticate_log [OF auth] obtain evs2 rest where
    "evs = WaitForEmptiness # LogInfo (activity_title_of (av_counter v) @ '' has been initiated.'')
       # evs2 @ rest"
    by blast
  with logged show ?thesis by simp
qed

lemma authenticate_without_logging:
  "without_logging (authenticate S E registry settings t1 w) =
   without_logging (authenticate S E registry settings t2 w)"
  by (auto simp: authenticate_def without_logging_def Let_def is_logging_def
      split: option.splits sum.splits)

subsection \<open>The state modelled from the spec\<close>

lemma State_from_scratch_keys: "fst ` set (State_from_scratch hs) = handler_id ` set hs"
  by (simp add: State_from_scratch_def dict_of_items_def keys_dict_update image_image)

lemma State_from_scratch_distinct: "distinct (map fst (State_from_scratch hs))"
  by (simp add: State_from_scratch_def dict_of_items_def distinct_dict_update)

lemma State_from_scratch_pending: "(k, latest) \<in> set (State_from_scratch hs) \<Longrightarrow> latest = None"
  using set_dict_update_cases [of "[]" k latest "map (\<lambda>h. (handler_id h, None)) hs"]
  by (auto simp: State_from_scratch_def dict_of_items_def)

lemma State_from_scratch_done_iff:
  "State_done (State_from_scratch hs :: ('hid, 'x, 'r) State) \<longleftrightarrow> hs = []"
proof
  let ?s = "State_from_scratch hs :: ('hid, 'x, 'r) State"
  assume d: "State_done ?s"
  show "hs = []"
  proof (rule ccontr)
    assume "hs \<noteq> []"
    then have "fst ` set ?s \<noteq> {}"
      by (simp add: State_from_scratch_keys)
    then have "?s \<noteq> []" by auto
    then obtain p ps where eq: "?s = p # ps" by (cases ?s) auto
    obtain k latest where p: "p = (k, latest)" by (cases p)
    have in_s: "(k, latest) \<in> set ?s" by (simp add: eq p)
    with State_from_scratch_pending [OF in_s] d show False
      by (auto simp: State_done_def list_all_iff)
  qed
next
  assume "hs = []"
  then show "State_done (State_from_scratch hs :: ('hid, 'x, 'r) State)"
    by (simp add: State_from_scratch_def State_done_def dict_of_items_def)
qed

lemma State_all_final:
  assumes "handler_id ` set hs \<subseteq> fst ` set outs"
    and "\<forall>(k, outcome) \<in> set outs. final outcome"
  shows "State_done (State_with_outcomes (State_from_scratch hs) outs)"
    and "State_delay (State_with_outcomes (State_from_scratch hs) outs) = None"
proof -
  let ?s = "State_with_outcomes (State_from_scratch hs) outs"
  have latest: "\<exists>outcome. latest = Some outcome \<and> final outcome" if "(k, latest) \<in> set ?s" for k latest
  proof -
    from that have "(k, latest) \<in> set (map (\<lambda>(k, outcome). (k, Some outcome)) outs)
        \<or> ((k, latest) \<in> set (State_from_scratch hs)
           \<and> k \<notin> fst ` set (map (\<lambda>(k, outcome). (k, Some outcome)) outs))"
      unfolding State_with_outcomes_def
      by (rule set_dict_update_cases [OF State_from_scratch_distinct])
    then show ?thesis
    proof
      assume "(k, latest) \<in> set (map (\<lambda>(k, outcome). (k, Some outcome)) outs)"
      with assms(2) show ?thesis by auto
    next
      assume *: "(k, latest) \<in> set (State_from_scratch hs)
           \<and> k \<notin> fst ` set (map (\<lambda>(k, outcome). (k, Some outcome)) outs)"
      then have "k \<in> handler_id ` set hs"
        using State_from_scratch_keys [of hs] by (metis fst_conv image_eqI)
      with assms(1) have "k \<in> fst ` set outs" by blast
      with * show ?thesis by (force simp: image_iff)
    qed
  qed
  have "case latest of None \<Rightarrow> False | Some outcome \<Rightarrow> final outcome"
    if "(k, latest) \<in> set ?s" for k latest
    using latest [OF that] by auto
  then show "State_done ?s"
    by (auto simp: State_done_def list_all_iff)
  have "List.map_filter
            (\<lambda>(k, latest). case latest of
                None \<Rightarrow> None
              | Some outcome \<Rightarrow>
                  (case delay outcome of
                    None \<Rightarrow> None
                  | Some d \<Rightarrow> if \<not> final outcome \<and> 0 < d then Some d else None)) ?s = []"
    unfolding map_filter_Nil_iff by (auto split: option.splits dest: latest)
  then show "State_delay ?s = None"
    by (simp add: State_delay_def)
qed

subsection \<open>Running the model\<close>

lemmas run_defs =
  run_activity_def run_loop.simps loop_body_def initial_vars_def activity_cause_def
  State_ops_def scripted_env_def State_from_scratch_def State_done_def State_delay_def
  State_with_outcomes_def dict_of_items_def dict_update_def exceptions_of_def results_of_def
  failed_temporarily_def failed_permanently_def succeeded_def List.map_filter_simps

lemma run_world_retries:
  "run_activity State_ops (scripted_env 10) () two_handlers () AUTHENTICATION world_retries =
   Some (Inl retries_error, \<lparr>script = [], vault = []\<rparr>, retries_log)"
  by (simp add: run_defs two_handlers_def world_retries_def retries_error_def retries_log_def)

lemma run_world_second_pass:
  "run_activity State_ops (scripted_env 10) (all_at_once (scripted_env 10)) two_handlers ()
     AUTHENTICATION (wait_for_emptiness (scripted_env 10) world_second_pass) =
   Some (Inr [(''h1'', ''X''), (''h2'', ''Y'')], \<lparr>script = [], vault = []\<rparr>, second_pass_log)"
  by (simp add: run_defs two_handlers_def world_second_pass_def second_pass_log_def)

lemmas auth_defs =
  authenticate_def authenticator_body_def authenticator_start_def activity_title_of_def Let_def

lemma authenticate_world_one_fails:
  "authenticate State_ops (scripted_env 10) two_handlers () ''Re-authentication'' world_one_fails =
   Some (Inl one_fails_error, \<lparr>script = [], vault = []\<rparr>, one_fails_log)"
  by (simp add: auth_defs run_defs two_handlers_def world_one_fails_def one_fails_error_def
      one_fails_log_def)

lemma authenticate_world_all_succeed:
  "authenticate State_ops (scripted_env 10) two_handlers () ''Re-authentication'' world_all_succeed =
   Some (Inr (), \<lparr>script = [], vault = [(''h1'', ''X'')]\<rparr>, all_succeed_log)"
  by (simp add: auth_defs run_defs two_handlers_def world_all_succeed_def all_succeed_log_def)

lemma first_round_body:
  "authenticator_body State_ops (scripted_env 10) two_handlers ()
     (authenticator_start (scripted_env 10) world_two_rounds) = Some (Inr after_first_round)"
  by (simp add: auth_defs run_defs two_handlers_def world_two_rounds_def after_first_round_def
      first_round_log_def)

lemma first_round:
  "authenticator_upto 1 State_ops (scripted_env 10) two_handlers ()
     (authenticator_start (scripted_env 10) world_two_rounds) = Some (Inr after_first_round)"
  by (simp add: first_round_body)

lemma second_round_batch:
  "run_activity State_ops (scripted_env 10) (all_at_once (scripted_env 10)) two_handlers ()
     AUTHENTICATION (wait_for_emptiness (scripted_env 10) (av_world after_first_round)) =
   Some (Inl two_rounds_error, \<lparr>script = [], vault = []\<rparr>, second_round_batch_log)"
  by (simp add: run_defs two_handlers_def after_first_round_def two_rounds_error_def
      second_round_batch_log_def)

lemma second_round_body:
  "authenticator_body State_ops (scripted_env 10) two_handlers () after_first_round =
   Some (Inl (two_rounds_error, \<lparr>script = [], vault = []\<rparr>, two_rounds_log))"
proof -
  have auth: "authenticate State_ops (scripted_env 10) two_handlers ()
      (activity_title_of (av_counter after_first_round)) (av_world after_first_round) =
    Some (Inl two_rounds_error, \<lparr>script = [], vault = []\<rparr>,
          WaitForEmptiness #
          LogInfo (activity_title_of (av_counter after_first_round) @ '' has been initiated.'') #
          second_round_batch_log)"
    by (rule authenticate_raises [OF second_round_batch])
  have title: "activity_title_of (av_counter after_first_round) = ''Re-authentication''"
    by (simp add: after_first_round_def activity_title_of_def)
  have logged: "av_log after_first_round = first_round_log"
    by (simp add: after_first_round_def)
  show ?thesis
    unfolding authenticator_body_def auth
    by (simp add: title logged two_rounds_log_def)
qed

lemma two_rounds:
  "authenticator_upto 2 State_ops (scripted_env 10) two_handlers ()
     (authenticator_start (scripted_env 10) world_two_rounds) =
   Some (Inl (two_rounds_error, \<lparr>script = [], vault = []\<rparr>, two_rounds_log))"
  by (simp add: numeral_2_eq_2 first_round_body second_round_body)

lemma initial_round:
  "authenticator_upto 1 State_ops (scripted_env 10) two_handlers ()
     (authenticator_start (scripted_env 10) world_second_pass) = Some (Inr after_initial_round)"
  by (simp add: auth_defs run_defs two_handlers_def world_second_pass_def after_initial_round_def
      second_pass_log_def)

section \<open>The claims\<close>

text \<open>
  C1. Whenever the loop of \<open>run_activity\<close> exits, that is whenever the call comes back at
  all, it raises \<open>ActivityError\<close> if and only if some outcome of the accumulated mapping
  carries an exception. The accumulated mapping is the merge of the outcomes of all the
  passes, in their order. The error carries that whole mapping: every handler that got an
  outcome in any pass has an entry in it, the failing ones and the others.
\<close>

theorem run_activity_raises_iff:
  assumes "run_activity S E lifecycle registry settings activity w = Some (res, w', evs)"
  shows "(isl res \<longleftrightarrow> (\<exists>(k, outcome) \<in> set (merged (passes_of evs)). exception outcome \<noteq> None))
       \<and> (\<forall>err. res = Inl err \<longrightarrow>
             err_outcomes err = merged (passes_of evs)
           \<and> (\<forall>outs \<in> set (passes_of evs). fst ` set outs \<subseteq> fst ` set (err_outcomes err)))"
proof -
  note raised = run_activity_raised(1) [OF assms]
  have carried: "err_outcomes err = merged (passes_of evs)" if "res = Inl err" for err
    using that by (rule run_activity_raised(2) [OF assms])
  have "fst ` set outs \<subseteq> fst ` set (merged (passes_of evs))" if "outs \<in> set (passes_of evs)" for outs
    using that by (auto simp: keys_merged)
  with raised carried show ?thesis by simp
qed

theorem run_activity_raises_iff_witness:
  "run_activity State_ops (scripted_env 10) () two_handlers () AUTHENTICATION world_retries =
     Some (Inl retries_error, \<lparr>script = [], vault = []\<rparr>, retries_log)
   \<and> (\<exists>(k, outcome) \<in> set (merged (passes_of retries_log)). exception outcome \<noteq> None)
   \<and> err_outcomes retries_error = merged (passes_of retries_log)
   \<and> fst ` set (err_outcomes retries_error) = {''h1'', ''h2''}"
proof -
  note run = run_world_retries
  from run_activity_raises_iff [OF run] have
    "\<exists>(k, outcome) \<in> set (merged (passes_of retries_log)). exception outcome \<noteq> None"
    "err_outcomes retries_error = merged (passes_of retries_log)"
    by simp_all
  moreover have "fst ` set (err_outcomes retries_error) = {''h1'', ''h2''}"
    by (auto simp: retries_error_def)
  ultimately show ?thesis using run by blast
qed

text \<open>
  C6, as the claim states it, fails. In the first pass \<open>h1\<close> fails for the time being with
  \<open>E1\<close> and \<open>h2\<close> fails for good with \<open>E2\<close>; in the second pass \<open>h1\<close> fails for good with
  \<open>E3\<close>. The exceptions are observed in the order \<open>E1\<close>, \<open>E2\<close>, \<open>E3\<close>, and the carried
  mapping still holds \<open>E2\<close>, observed before \<open>E3\<close>; the cause of the error is \<open>E3\<close>, the one
  observed last.
\<close>

theorem first_observed_cause_counterexample:
  "run_activity State_ops (scripted_env 10) () two_handlers () AUTHENTICATION world_retries =
     Some (Inl retries_error, \<lparr>script = [], vault = []\<rparr>, retries_log)
   \<and> observed_exceptions retries_log = [''E1'', ''E2'', ''E3'']
   \<and> map (exception \<circ> snd) (err_outcomes retries_error) = [Some ''E3'', Some ''E2'']
   \<and> err_cause retries_error = ''E3''
   \<and> err_cause retries_error \<noteq> hd (observed_exceptions retries_log)"
  using run_world_retries
  by (simp add: observed_exceptions_def retries_log_def retries_error_def passes_of_def
      exceptions_of_def failed_temporarily_def failed_permanently_def List.map_filter_simps)

text \<open>
  C6, amended. Whenever \<open>run_activity\<close> raises \<open>ActivityError\<close>, its cause is the exception of
  the first entry of the carried outcome mapping that has one: the mapping splits into
  entries without an exception, then the entry whose exception is the cause. First is meant
  in the order in which the mapping is read. The mapping lists the handlers in the order in
  which they first got an outcome and holds the latest outcome of each, so the cause need
  not be the exception that was observed first.
\<close>

theorem activity_error_cause_is_first:
  assumes "run_activity S E lifecycle registry settings activity w = Some (Inl err, w', evs)"
  shows "(\<exists>pre k outcome post.
            err_outcomes err = pre @ (k, outcome) # post
          \<and> exception outcome = Some (err_cause err)
          \<and> (\<forall>(k', outcome') \<in> set pre. exception outcome' = None))
       \<and> map fst (err_outcomes err) = first_seen (concat (map (map fst) (passes_of evs)))"
proof -
  from assms obtain v where
    loop: "run_loop S E lifecycle settings (get_handlers E registry activity)
       (activity_cause E settings activity) (initial_vars S E registry activity w) = Some v"
    and evs: "evs = lv_log v"
    and res: "Inl err = (case exceptions_of (lv_outcomes v) of
              e # _ \<Rightarrow> Inl \<lparr>err_msg = ''One or more handlers failed.'',
                             err_outcomes = lv_outcomes v, err_cause = e\<rparr>
            | [] \<Rightarrow> Inr (results_of (lv_outcomes v)))"
    by (rule run_activity_SomeD)
  from res obtain e es where
    ex: "exceptions_of (lv_outcomes v) = e # es"
    and err: "err = \<lparr>err_msg = ''One or more handlers failed.'',
                      err_outcomes = lv_outcomes v, err_cause = e\<rparr>"
    by (cases "exceptions_of (lv_outcomes v)") simp_all
  from map_filter_Cons_first [OF ex [unfolded exceptions_of_def]]
  obtain pre x post where split: "lv_outcomes v = pre @ x # post"
    and x: "(case x of (k0, outcome) \<Rightarrow> exception outcome) = Some e"
    and pre: "\<forall>z \<in> set pre. (case z of (k0, outcome) \<Rightarrow> exception outcome) = None"
    by blast
  obtain k outcome where kx: "x = (k, outcome)" by (cases x)
  have first: "err_outcomes err = pre @ (k, outcome) # post
      \<and> exception outcome = Some (err_cause err)
      \<and> (\<forall>(k', outcome') \<in> set pre. exception outcome' = None)"
    using split x pre by (simp add: err kx split_beta)
  have "lv_outcomes v = merged (passes_of evs)"
    unfolding evs by (rule run_activity_outcomes [OF loop])
  then have "map fst (err_outcomes err) = first_seen (concat (map (map fst) (passes_of evs)))"
    by (simp add: err keys_order_merged)
  with first show ?thesis by blast
qed

theorem activity_error_cause_is_first_witness:
  "run_activity State_ops (scripted_env 10) () two_handlers () AUTHENTICATION world_retries =
     Some (Inl retries_error, \<lparr>script = [], vault = []\<rparr>, retries_log)
   \<and> err_cause retries_error = ''E3''
   \<and> hd (err_outcomes retries_error) = (''h1'', failed_permanently ''E3'')
   \<and> map fst (err_outcomes retries_error) = first_seen (concat (map (map fst) (passes_of retries_log)))"
  using run_world_retries activity_error_cause_is_first [OF run_world_retries]
  by (simp add: retries_error_def)

text \<open>
  C4. After every pass whose merged state reports a positive delay, the loop calls the sleep
  primitive as the last thing before the next pass, with the lesser of that delay and
  \<open>WAITING_KEEPALIVE_INTERVAL\<close>: the log ends with that call, and the world in which the
  next pass starts is the one that \<open>sleep_or_wait\<close> gives, at that duration, from the world
  the tick left. The duration is at most the cap; and so is every duration the loop has
  slept after any number of passes, and in any run that comes back.
\<close>

theorem sleep_is_capped:
  "(\<forall>d. state_delay S (lv_state (loop_body S E lifecycle settings handlers cause v)) = Some d \<and> 0 < d \<longrightarrow>
        sleeps_of (lv_log (loop_body S E lifecycle settings handlers cause v)) =
          sleeps_of (lv_log v) @ [min d (WAITING_KEEPALIVE_INTERVAL E)]
      \<and> last (lv_log (loop_body S E lifecycle settings handlers cause v)) =
          SleepOrWait (min d (WAITING_KEEPALIVE_INTERVAL E))
      \<and> lv_world (loop_body S E lifecycle settings handlers cause v) =
          sleep_or_wait E (min d (WAITING_KEEPALIVE_INTERVAL E))
            (snd (execute_handlers_once E lifecycle settings handlers cause (lv_state v) (lv_world v)))
      \<and> min d (WAITING_KEEPALIVE_INTERVAL E) \<le> WAITING_KEEPALIVE_INTERVAL E)
   \<and> (\<forall>n. \<forall>s \<in> set (sleeps_of (lv_log ((loop_body S E lifecycle settings
                (get_handlers E registry activity) (activity_cause E settings activity) ^^ n)
                (initial_vars S E registry activity w)))).
        s \<le> WAITING_KEEPALIVE_INTERVAL E)
   \<and> (\<forall>res w' evs. run_activity S E lifecycle registry settings activity w = Some (res, w', evs) \<longrightarrow>
        (\<forall>s \<in> set (sleeps_of evs). s \<le> WAITING_KEEPALIVE_INTERVAL E))"
proof (intro conjI allI impI)
  fix d
  assume d: "state_delay S (lv_state (loop_body S E lifecycle settings handlers cause v)) = Some d \<and> 0 < d"
  then have ev: "pass_events S E lifecycle settings handlers cause v =
         [ExecuteHandlersOnce lifecycle (lv_state v)
            (fst (execute_handlers_once E lifecycle settings handlers cause (lv_state v) (lv_world v))),
          SleepOrWait (min d (WAITING_KEEPALIVE_INTERVAL E))]"
    by (intro loop_body_sleep(1)) simp_all
  show "sleeps_of (lv_log (loop_body S E lifecycle settings handlers cause v)) =
          sleeps_of (lv_log v) @ [min d (WAITING_KEEPALIVE_INTERVAL E)]"
    by (simp add: lv_log_loop_body sleeps_of_append ev) (simp add: sleeps_of_def List.map_filter_simps)
  show "last (lv_log (loop_body S E lifecycle settings handlers cause v)) =
          SleepOrWait (min d (WAITING_KEEPALIVE_INTERVAL E))"
    by (simp add: lv_log_loop_body ev)
  show "lv_world (loop_body S E lifecycle settings handlers cause v) =
          sleep_or_wait E (min d (WAITING_KEEPALIVE_INTERVAL E))
            (snd (execute_handlers_once E lifecycle settings handlers cause (lv_state v) (lv_world v)))"
    using d by (intro loop_body_sleep(2)) simp_all
  show "min d (WAITING_KEEPALIVE_INTERVAL E) \<le> WAITING_KEEPALIVE_INTERVAL E" by simp
next
  fix n
  show "\<forall>s \<in> set (sleeps_of (lv_log ((loop_body S E lifecycle settings
                (get_handlers E registry activity) (activity_cause E settings activity) ^^ n)
                (initial_vars S E registry activity w)))).
        s \<le> WAITING_KEEPALIVE_INTERVAL E"
    by (rule passes_sleeps) (simp add: sleeps_of_initial_vars)
next
  fix res w' evs
  assume "run_activity S E lifecycle registry settings activity w = Some (res, w', evs)"
  then obtain v' where
    loop: "run_loop S E lifecycle settings (get_handlers E registry activity)
       (activity_cause E settings activity) (initial_vars S E registry activity w) = Some v'"
    and evs: "evs = lv_log v'"
    by (rule run_activity_SomeD)
  show "\<forall>s \<in> set (sleeps_of evs). s \<le> WAITING_KEEPALIVE_INTERVAL E"
    unfolding evs by (rule run_loop_sleeps [OF loop]) (simp add: sleeps_of_initial_vars)
qed

theorem sleep_is_capped_witness:
  "state_delay State_ops (lv_state (loop_body State_ops (scripted_env 10) () () (two_handlers AUTHENTICATION)
       (activity_cause (scripted_env 10) () AUTHENTICATION)
       (initial_vars State_ops (scripted_env 10) two_handlers AUTHENTICATION world_retries))) = Some 3600
   \<and> sleeps_of (lv_log (loop_body State_ops (scripted_env 10) () () (two_handlers AUTHENTICATION)
       (activity_cause (scripted_env 10) () AUTHENTICATION)
       (initial_vars State_ops (scripted_env 10) two_handlers AUTHENTICATION world_retries))) = [10]
   \<and> lv_world (loop_body State_ops (scripted_env 10) () () (two_handlers AUTHENTICATION)
       (activity_cause (scripted_env 10) () AUTHENTICATION)
       (initial_vars State_ops (scripted_env 10) two_handlers AUTHENTICATION world_retries)) =
     sleep_or_wait (scripted_env 10) 10
       \<lparr>script = [[(''h1'', failed_permanently ''E3'')]], vault = []\<rparr>
   \<and> run_activity State_ops (scripted_env 10) () two_handlers () AUTHENTICATION world_retries =
       Some (Inl retries_error, \<lparr>script = [], vault = []\<rparr>, retries_log)
   \<and> sleeps_of retries_log = [10]
   \<and> list_all (\<lambda>s. s \<le> 10) (sleeps_of retries_log)"
proof -
  let ?v = "initial_vars State_ops (scripted_env 10) two_handlers AUTHENTICATION world_retries"
  let ?b = "loop_body State_ops (scripted_env 10) () () (two_handlers AUTHENTICATION)
       (activity_cause (scripted_env 10) () AUTHENTICATION) ?v"
  have d: "state_delay State_ops (lv_state ?b) = Some 3600"
    by (simp add: run_defs two_handlers_def world_retries_def)
  have cap: "WAITING_KEEPALIVE_INTERVAL (scripted_env 10) = 10"
    by (simp add: scripted_env_def)
  have v: "sleeps_of (lv_log ?v) = []"
    by (rule sleeps_of_initial_vars)
  note capped = sleep_is_capped [of State_ops "scripted_env 10" "()" "()" "two_handlers AUTHENTICATION"
      "activity_cause (scripted_env 10) () AUTHENTICATION" ?v two_handlers AUTHENTICATION world_retries]
  from capped d have "sleeps_of (lv_log ?b) = sleeps_of (lv_log ?v) @ [min 3600 10]"
    unfolding cap by simp
  then have b: "sleeps_of (lv_log ?b) = [10]"
    by (simp add: v)
  have ticked: "snd (execute_handlers_once (scripted_env 10) () () (two_handlers AUTHENTICATION)
      (activity_cause (scripted_env 10) () AUTHENTICATION) (lv_state ?v) (lv_world ?v)) =
      \<lparr>script = [[(''h1'', failed_permanently ''E3'')]], vault = []\<rparr>"
    by (simp add: scripted_env_def initial_vars_def world_retries_def)
  from capped d have "lv_world ?b = sleep_or_wait (scripted_env 10) (min 3600 10)
      (snd (execute_handlers_once (scripted_env 10) () () (two_handlers AUTHENTICATION)
        (activity_cause (scripted_env 10) () AUTHENTICATION) (lv_state ?v) (lv_world ?v)))"
    unfolding cap by simp
  then have slept: "lv_world ?b = sleep_or_wait (scripted_env 10) 10
      \<lparr>script = [[(''h1'', failed_permanently ''E3'')]], vault = []\<rparr>"
    unfolding ticked by simp
  from capped run_world_retries have "\<forall>s \<in> set (sleeps_of retries_log). s \<le> 10"
    unfolding cap by blast
  then have all: "list_all (\<lambda>s. s \<le> 10) (sleeps_of retries_log)"
    by (simp add: list_all_iff)
  have "sleeps_of retries_log = [10]"
    by (simp add: retries_log_def sleeps_of_def List.map_filter_simps)
  with d b slept all run_world_retries show ?thesis by blast
qed

text \<open>
  C8. When the registry returns no handler for the activity, and the fresh state of an empty
  handler set is done, \<open>run_activity\<close> comes back at once: its only call is the registry
  lookup (no handler is invoked, nothing is slept), the world is untouched, no error is
  raised and the result mapping is empty.
\<close>

theorem run_activity_no_handlers:
  assumes "get_handlers E registry activity = []"
    and "state_done S (from_scratch S [])"
  shows "run_activity S E lifecycle registry settings activity w =
         Some (Inr [], w, [GetHandlers activity])"
  using assms
  by (simp add: run_activity_def initial_vars_def run_loop_done exceptions_of_def results_of_def
      dict_of_items_def List.map_filter_simps)

theorem run_activity_no_handlers_witness:
  "get_handlers (scripted_env 10) no_handlers AUTHENTICATION = []
   \<and> state_done State_ops (from_scratch State_ops ([] :: string ActivityHandler list)
        :: (string, string, string) State)
   \<and> run_activity State_ops (scripted_env 10) () no_handlers () AUTHENTICATION world_all_succeed =
       Some (Inr [], world_all_succeed, [GetHandlers AUTHENTICATION])"
proof -
  have h: "get_handlers (scripted_env 10) no_handlers AUTHENTICATION = []"
    by (simp add: scripted_env_def no_handlers_def)
  have d: "state_done State_ops (from_scratch State_ops ([] :: string ActivityHandler list)
        :: (string, string, string) State)"
    by (simp add: State_ops_def State_from_scratch_def State_done_def dict_of_items_def)
  from h d run_activity_no_handlers [OF h d] show ?thesis by blast
qed

text \<open>
  C3. A batch whose first pass resolves every handler with success: the pass gives outcomes
  without exception, after which the state is done and reports no delay. Then
  \<open>run_activity\<close> makes that one pass and no sleep (the log holds the registry lookup and
  the one tick), and returns the mapping whose entries are exactly the handlers with a
  result in their outcome, each with that result; handlers without a result are left out.
\<close>

theorem run_activity_first_pass_success:
  assumes first: "execute_handlers_once E lifecycle settings (get_handlers E registry activity)
        (activity_cause E settings activity) (from_scratch S (get_handlers E registry activity)) w
      = (outs, w1)"
    and pending: "\<not> state_done S (from_scratch S (get_handlers E registry activity))"
    and dict: "distinct (map fst outs)"
    and succeed: "\<forall>(k, outcome) \<in> set outs. exception outcome = None"
    and resolved: "state_done S (with_outcomes S (from_scratch S (get_handlers E registry activity)) outs)"
    and no_delay: "state_delay S (with_outcomes S (from_scratch S (get_handlers E registry activity)) outs) = None"
  shows "\<exists>results.
          run_activity S E lifecycle registry settings activity w =
            Some (Inr results, w1,
                  [GetHandlers activity,
                   ExecuteHandlersOnce lifecycle (from_scratch S (get_handlers E registry activity)) outs])
        \<and> (\<forall>k r. (k, r) \<in> set results \<longleftrightarrow> (\<exists>outcome. (k, outcome) \<in> set outs \<and> result outcome = Some r))
        \<and> distinct (map fst results)"
proof -
  let ?hs = "get_handlers E registry activity"
  let ?c = "activity_cause E settings activity"
  let ?v0 = "initial_vars S E registry activity w"
  let ?v1 = "\<lparr>lv_state = with_outcomes S (from_scratch S ?hs) outs, lv_outcomes = outs, lv_world = w1,
              lv_log = [GetHandlers activity, ExecuteHandlersOnce lifecycle (from_scratch S ?hs) outs]\<rparr>"
  have body: "loop_body S E lifecycle settings ?hs ?c ?v0 = ?v1"
    using first no_delay dict
    by (simp add: loop_body_def initial_vars_def Let_def dict_update_fresh)
  have "run_loop S E lifecycle settings ?hs ?c ?v0 = run_loop S E lifecycle settings ?hs ?c ?v1"
    using run_loop_step [of S ?v0 E lifecycle settings ?hs ?c] pending
    by (simp add: body) (simp add: initial_vars_def)
  also have "\<dots> = Some ?v1"
    using resolved by (simp add: run_loop_done)
  finally have loop: "run_loop S E lifecycle settings ?hs ?c ?v0 = Some ?v1" .
  have no_exc: "exceptions_of outs = []"
    using succeed by (simp add: exceptions_of_Nil_iff)
  have run: "run_activity S E lifecycle registry settings activity w =
      Some (Inr (results_of outs), w1,
            [GetHandlers activity, ExecuteHandlersOnce lifecycle (from_scratch S ?hs) outs])"
    by (simp add: run_activity_def loop no_exc)
  have "(k, r) \<in> set (results_of outs) \<longleftrightarrow> (\<exists>outcome. (k, outcome) \<in> set outs \<and> result outcome = Some r)" for k r
    by (force simp: results_of_distinct(1) [OF dict] set_map_filter)
  with run results_of_distinct(2) [OF dict] show ?thesis by blast
qed

theorem run_activity_first_pass_success_witness:
  "execute_handlers_once (scripted_env 10) () () (get_handlers (scripted_env 10) two_handlers AUTHENTICATION)
       (activity_cause (scripted_env 10) () AUTHENTICATION)
       (from_scratch State_ops (get_handlers (scripted_env 10) two_handlers AUTHENTICATION))
       world_all_succeed
     = ([(''h1'', succeeded (Some ''X'')), (''h2'', succeeded None)], \<lparr>script = [], vault = []\<rparr>)
   \<and> (\<exists>results.
        run_activity State_ops (scripted_env 10) () two_handlers () AUTHENTICATION world_all_succeed =
          Some (Inr results, \<lparr>script = [], vault = []\<rparr>,
                [GetHandlers AUTHENTICATION,
                 ExecuteHandlersOnce () [(''h1'', None), (''h2'', None)]
                   [(''h1'', succeeded (Some ''X'')), (''h2'', succeeded None)]])
      \<and> (''h1'', ''X'') \<in> set results \<and> (\<forall>r. (''h2'', r) \<notin> set results))"
proof -
  let ?E = "scripted_env 10"
  let ?hs = "get_handlers ?E two_handlers AUTHENTICATION"
  let ?outs = "[(''h1'', succeeded (Some ''X'')), (''h2'', succeeded None)]
    :: (string, string, string) outcomes"
  let ?s0 = "from_scratch State_ops ?hs :: (string, string, string) State"
  have hs: "?hs = two_handlers AUTHENTICATION"
    by (simp add: scripted_env_def)
  have s0: "?s0 = [(''h1'', None), (''h2'', None)]"
    by (simp add: hs State_ops_def State_from_scratch_def dict_of_items_def two_handlers_def)
  have first: "execute_handlers_once ?E () () ?hs (activity_cause ?E () AUTHENTICATION) ?s0
      world_all_succeed = (?outs, \<lparr>script = [], vault = []\<rparr>)"
    by (simp add: scripted_env_def world_all_succeed_def)
  have pending: "\<not> state_done State_ops ?s0"
    by (simp add: hs State_ops_def State_from_scratch_done_iff two_handlers_def)
  have dict: "distinct (map fst ?outs)"
    by simp
  have succeed: "\<forall>(k, outcome) \<in> set ?outs. exception outcome = None"
    by (simp add: succeeded_def)
  have covered: "handler_id ` set (two_handlers AUTHENTICATION) \<subseteq> fst ` set ?outs"
    by (simp add: two_handlers_def)
  have finals: "\<forall>(k, outcome) \<in> set ?outs. final outcome"
    by (simp add: succeeded_def)
  have resolved: "state_done State_ops (with_outcomes State_ops ?s0 ?outs)"
    using State_all_final(1) [OF covered finals] by (simp add: hs State_ops_def)
  have no_delay: "state_delay State_ops (with_outcomes State_ops ?s0 ?outs) = None"
    using State_all_final(2) [OF covered finals] by (simp add: hs State_ops_def)
  from run_activity_first_pass_success [OF first pending dict succeed resolved no_delay]
  obtain results where
    run: "run_activity State_ops ?E () two_handlers () AUTHENTICATION world_all_succeed =
          Some (Inr results, \<lparr>script = [], vault = []\<rparr>,
                [GetHandlers AUTHENTICATION, ExecuteHandlersOnce () ?s0 ?outs])"
    and exact: "\<forall>k r. (k, r) \<in> set results \<longleftrightarrow>
          (\<exists>outcome. (k, outcome) \<in> set ?outs \<and> result outcome = Some r)"
    by blast
  from exact have "(''h1'', ''X'') \<in> set results" "\<forall>r. (''h2'', r) \<notin> set results"
    by (simp_all add: succeeded_def)
  with first run show ?thesis
    unfolding s0 by blast
qed

text \<open>
  C7. When the batch of an authentication attempt returns its results, and \<open>str\<close> gives
  different handler ids different strings, \<open>authenticate\<close> calls \<open>populate\<close> once, with the
  entries of the result mapping in their order: each key is \<open>str\<close> of the handler id, each
  value is the result as it was.
\<close>

theorem populate_gets_stringified_results:
  assumes run: "run_activity S E (all_at_once E) registry settings AUTHENTICATION (wait_for_emptiness E w)
           = Some (Inr results, w2, evs2)"
    and inj: "inj_on (str_of E) (fst ` set results)"
  shows "\<exists>evs. authenticate S E registry settings title w =
           Some (Inr (), populate E (stringified (str_of E) results) w2, evs)
         \<and> populate_calls evs = [stringified (str_of E) results]"
proof -
  have d: "dict_of_items (stringified (str_of E) results) = stringified (str_of E) results"
    using run_activity_results(1) [OF run] inj by (rule stringified_distinct)
  have "populate_calls (WaitForEmptiness # LogInfo (title @ '' has been initiated.'') # evs2 @
               [if results \<noteq> [] then LogInfo (title @ '' has finished.'')
                else LogWarning (title @ '' has failed: no credentials were retrieved from the login handlers.''),
                Populate (stringified (str_of E) results)]) = [stringified (str_of E) results]"
    using run_activity_populate_calls [OF run]
    by (simp add: populate_calls_def List.map_filter_simps map_filter_append)
  with authenticate_returns [OF run, of title] show ?thesis
    unfolding d by blast
qed

theorem populate_gets_stringified_results_witness:
  "run_activity State_ops (scripted_env 10) (all_at_once (scripted_env 10)) two_handlers ()
     AUTHENTICATION (wait_for_emptiness (scripted_env 10) world_second_pass) =
     Some (Inr [(''h1'', ''X''), (''h2'', ''Y'')], \<lparr>script = [], vault = []\<rparr>, second_pass_log)
   \<and> inj_on (str_of (scripted_env 10)) (fst ` set [(''h1'', ''X''), (''h2'', ''Y'')])
   \<and> (\<exists>evs. authenticate State_ops (scripted_env 10) two_handlers () ''Re-authentication''
              world_second_pass =
            Some (Inr (), \<lparr>script = [], vault = [(''h1'', ''X''), (''h2'', ''Y'')]\<rparr>, evs)
          \<and> populate_calls evs = [[(''h1'', ''X''), (''h2'', ''Y'')]])"
proof -
  have inj: "inj_on (str_of (scripted_env 10)) (fst ` set [(''h1'', ''X''), (''h2'', ''Y'')])"
    by (simp add: scripted_env_def)
  from populate_gets_stringified_results [OF run_world_second_pass inj, of "''Re-authentication''"]
  have "\<exists>evs. authenticate State_ops (scripted_env 10) two_handlers () ''Re-authentication''
              world_second_pass =
            Some (Inr (), \<lparr>script = [], vault = [(''h1'', ''X''), (''h2'', ''Y'')]\<rparr>, evs)
          \<and> populate_calls evs = [[(''h1'', ''X''), (''h2'', ''Y'')]]"
    by (simp add: stringified_def scripted_env_def)
  with run_world_second_pass inj show ?thesis by blast
qed

text \<open>
  C2, as the claim states it, fails. One handler returns the credential \<open>X\<close> and the other
  fails for good: the outcome with the exception makes \<open>run_activity\<close> raise, the error
  leaves \<open>authenticate\<close> before the call of \<open>populate\<close>, and the vault gets nothing.
\<close>

theorem populate_after_failure_counterexample:
  "authenticate State_ops (scripted_env 10) two_handlers () ''Re-authentication'' world_one_fails =
     Some (Inl one_fails_error, \<lparr>script = [], vault = []\<rparr>, one_fails_log)
   \<and> populate_calls one_fails_log = []"
  using authenticate_world_one_fails
  by (simp add: one_fails_log_def populate_calls_def List.map_filter_simps)

text \<open>
  C2, amended. In every authentication attempt that comes back, the batch came back too, and
  it raised if and only if some accumulated outcome carries an exception. If it raised, the
  error leaves \<open>authenticate\<close>, which does not call \<open>populate\<close>. If it returned, \<open>authenticate\<close>
  calls \<open>populate\<close> once with the stringified results, and the results are those of exactly
  the handlers whose outcome holds a result: a handler whose outcome has neither result nor
  exception is left out, so the vault may get a part of the handlers only.
\<close>

theorem populate_iff_no_exception:
  assumes "authenticate S E registry settings title w = Some (res, w', evs)"
  shows "\<exists>res2 w2 evs2.
      run_activity S E (all_at_once E) registry settings AUTHENTICATION (wait_for_emptiness E w)
        = Some (res2, w2, evs2)
    \<and> (isl res2 \<longleftrightarrow> (\<exists>(k, outcome) \<in> set (merged (passes_of evs2)). exception outcome \<noteq> None))
    \<and> (case res2 of
          Inl err \<Rightarrow> res = Inl err \<and> w' = w2 \<and> populate_calls evs = []
        | Inr results \<Rightarrow>
            res = Inr ()
          \<and> w' = populate E (dict_of_items (stringified (str_of E) results)) w2
          \<and> populate_calls evs = [dict_of_items (stringified (str_of E) results)]
          \<and> (\<forall>k r. (k, r) \<in> set results \<longleftrightarrow>
                (\<exists>outcome. (k, outcome) \<in> set (merged (passes_of evs2)) \<and> result outcome = Some r)))"
proof -
  from assms obtain res2 w2 evs2 where
    run: "run_activity S E (all_at_once E) registry settings AUTHENTICATION (wait_for_emptiness E w)
        = Some (res2, w2, evs2)"
    by (rule authenticate_SomeD)
  have no_pop: "populate_calls evs2 = []"
    by (rule run_activity_populate_calls [OF run])
  have raised: "isl res2 \<longleftrightarrow> (\<exists>(k, outcome) \<in> set (merged (passes_of evs2)). exception outcome \<noteq> None)"
    by (rule run_activity_raised(1) [OF run])
  have "case res2 of
          Inl err \<Rightarrow> res = Inl err \<and> w' = w2 \<and> populate_calls evs = []
        | Inr results \<Rightarrow>
            res = Inr ()
          \<and> w' = populate E (dict_of_items (stringified (str_of E) results)) w2
          \<and> populate_calls evs = [dict_of_items (stringified (str_of E) results)]
          \<and> (\<forall>k r. (k, r) \<in> set results \<longleftrightarrow>
                (\<exists>outcome. (k, outcome) \<in> set (merged (passes_of evs2)) \<and> result outcome = Some r))"
  proof (cases res2)
    case (Inl err)
    from authenticate_raises [OF run [unfolded Inl], of title] assms no_pop
    show ?thesis by (simp add: Inl populate_calls_def List.map_filter_simps)
  next
    case (Inr results)
    from authenticate_returns [OF run [unfolded Inr], of title] assms no_pop
      run_activity_results(2) [OF run [unfolded Inr]]
    show ?thesis by (simp add: Inr populate_calls_def List.map_filter_simps map_filter_append)
  qed
  with run raised show ?thesis by blast
qed

theorem populate_iff_no_exception_witness:
  "authenticate State_ops (scripted_env 10) two_handlers () ''Re-authentication'' world_all_succeed =
     Some (Inr (), \<lparr>script = [], vault = [(''h1'', ''X'')]\<rparr>, all_succeed_log)
   \<and> (\<exists>results w2 evs2.
        run_activity State_ops (scripted_env 10) (all_at_once (scripted_env 10)) two_handlers ()
          AUTHENTICATION (wait_for_emptiness (scripted_env 10) world_all_succeed)
          = Some (Inr results, w2, evs2)
      \<and> populate_calls all_succeed_log = [dict_of_items (stringified (str_of (scripted_env 10)) results)]
      \<and> exceptions_of (merged (passes_of evs2)) = [])
   \<and> populate_calls all_succeed_log = [[(''h1'', ''X'')]]"
proof -
  note auth = authenticate_world_all_succeed
  from populate_iff_no_exception [OF auth] obtain res2 w2 evs2 where
    run: "run_activity State_ops (scripted_env 10) (all_at_once (scripted_env 10)) two_handlers ()
          AUTHENTICATION (wait_for_emptiness (scripted_env 10) world_all_succeed)
          = Some (res2, w2, evs2)"
    and raised: "isl res2 \<longleftrightarrow> (\<exists>(k, outcome) \<in> set (merged (passes_of evs2)). exception outcome \<noteq> None)"
    and cases: "case res2 of
          Inl err \<Rightarrow> (Inr () :: (string, string, string) ActivityError + unit) = Inl err
            \<and> \<lparr>script = [], vault = [(''h1'', ''X'')]\<rparr> = w2 \<and> populate_calls all_succeed_log = []
        | Inr results \<Rightarrow>
            (Inr () :: (string, string, string) ActivityError + unit) = Inr ()
          \<and> \<lparr>script = [], vault = [(''h1'', ''X'')]\<rparr> =
              populate (scripted_env 10) (dict_of_items (stringified (str_of (scripted_env 10)) results)) w2
          \<and> populate_calls all_succeed_log = [dict_of_items (stringified (str_of (scripted_env 10)) results)]
          \<and> (\<forall>k r. (k, r) \<in> set results \<longleftrightarrow>
                (\<exists>outcome. (k, outcome) \<in> set (merged (passes_of evs2)) \<and> result outcome = Some r))"
    by blast
  from cases obtain results where res2: "res2 = Inr results"
    and pop: "populate_calls all_succeed_log = [dict_of_items (stringified (str_of (scripted_env 10)) results)]"
    by (cases res2) simp_all
  from raised have clean: "exceptions_of (merged (passes_of evs2)) = []"
    by (auto simp: res2 exceptions_of_Nil_iff)
  have "populate_calls all_succeed_log = [[(''h1'', ''X'')]]"
    by (simp add: all_succeed_log_def populate_calls_def List.map_filter_simps)
  with auth run [unfolded res2] pop clean show ?thesis by blast
qed

text \<open>
  C5. In every authentication attempt that comes back, the log starts with the wait for the
  vault's emptiness; the batch (\<open>run_activity\<close> for \<open>AUTHENTICATION\<close> with the all-at-once
  lifecycle) starts in the world that this wait returned, and its calls follow. After any
  number of iterations of the authenticator's loop, every start of a batch in the log comes
  after a wait that returned since the batch before it.
\<close>

theorem batch_only_after_wait:
  "(\<forall>res w' evs. authenticate S E registry settings title w = Some (res, w', evs) \<longrightarrow>
      (\<exists>res2 w2 evs2 rest.
          run_activity S E (all_at_once E) registry settings AUTHENTICATION (wait_for_emptiness E w)
            = Some (res2, w2, evs2)
        \<and> evs = WaitForEmptiness # LogInfo (title @ '' has been initiated.'') # evs2 @ rest)
      \<and> batch_after_wait False evs)
   \<and> (\<forall>n r. authenticator_upto n S E registry settings (authenticator_start E w) = Some r \<longrightarrow>
        batch_after_wait False (upto_log r))"
proof (intro conjI allI impI)
  fix res w' evs
  assume auth: "authenticate S E registry settings title w = Some (res, w', evs)"
  from authenticate_log [OF auth]
  show "\<exists>res2 w2 evs2 rest.
          run_activity S E (all_at_once E) registry settings AUTHENTICATION (wait_for_emptiness E w)
            = Some (res2, w2, evs2)
        \<and> evs = WaitForEmptiness # LogInfo (title @ '' has been initiated.'') # evs2 @ rest"
    by blast
  from authenticate_batch_after_wait [OF auth, of False "[]"]
  show "batch_after_wait False evs" by simp
next
  fix n r
  assume upto: "authenticator_upto n S E registry settings (authenticator_start E w) = Some r"
  have init: "\<forall>later. batch_after_wait False (av_log (authenticator_start E w) @ later)
      = batch_after_wait False later"
    by (simp add: authenticator_start_def)
  note all = authenticator_upto_batch_after_wait [OF upto init]
  from spec [OF all, of "[]"] show "batch_after_wait False (upto_log r)" by simp
qed

theorem batch_only_after_wait_witness:
  "authenticate State_ops (scripted_env 10) two_handlers () ''Re-authentication'' world_one_fails =
     Some (Inl one_fails_error, \<lparr>script = [], vault = []\<rparr>, one_fails_log)
   \<and> batch_after_wait False one_fails_log
   \<and> authenticator_upto 2 State_ops (scripted_env 10) two_handlers ()
       (authenticator_start (scripted_env 10) world_two_rounds) =
     Some (Inl (two_rounds_error, \<lparr>script = [], vault = []\<rparr>, two_rounds_log))
   \<and> batch_after_wait False two_rounds_log
   \<and> length (filter (\<lambda>e. e = WaitForEmptiness) two_rounds_log) = 2"
proof -
  note claim = batch_only_after_wait [of State_ops "scripted_env 10" two_handlers "()"]
  from claim [of "''Re-authentication''" world_one_fails] authenticate_world_one_fails
  have one: "batch_after_wait False one_fails_log" by blast
  from claim [of "''Re-authentication''" world_two_rounds] two_rounds
  have "batch_after_wait False (upto_log (Inl (two_rounds_error, \<lparr>script = [], vault = []\<rparr>, two_rounds_log)
      :: ((string, string, string) ActivityError \<times> (string, string, string) scripted \<times> _) + _))"
    by blast
  then have two: "batch_after_wait False two_rounds_log"
    by (simp add: upto_log_def)
  have "length (filter (\<lambda>e. e = WaitForEmptiness) two_rounds_log) = 2"
    by (simp add: two_rounds_log_def first_round_log_def second_round_batch_log_def)
  with one two authenticate_world_one_fails two_rounds show ?thesis by blast
qed

text \<open>
  C9. The authenticator never returns normally: whatever it comes back with is an exception.
  After any number of completed iterations the loop goes on with one more call of
  \<open>authenticate\<close>. When the batch of that call raises \<open>ActivityError\<close>, the error leaves
  \<open>authenticate\<close> and then the authenticator itself, unchanged: nothing catches it.
\<close>

theorem authenticator_never_returns:
  "authenticator S E registry settings w \<noteq> Some (Inr u)
   \<and> (\<forall>n v. authenticator_upto n S E registry settings (authenticator_start E w) = Some (Inr v) \<longrightarrow>
        authenticator S E registry settings w =
          (case authenticator_body S E registry settings v of
            None \<Rightarrow> None
          | Some (Inl raised) \<Rightarrow> Some (Inl raised)
          | Some (Inr v') \<Rightarrow> authenticator_loop S E registry settings v'))
   \<and> (\<forall>n v err w2 evs2.
        authenticator_upto n S E registry settings (authenticator_start E w) = Some (Inr v)
        \<and> run_activity S E (all_at_once E) registry settings AUTHENTICATION
            (wait_for_emptiness E (av_world v)) = Some (Inl err, w2, evs2) \<longrightarrow>
        authenticate S E registry settings (activity_title_of (av_counter v)) (av_world v) =
          Some (Inl err, w2,
                WaitForEmptiness #
                LogInfo (activity_title_of (av_counter v) @ '' has been initiated.'') # evs2)
        \<and> authenticator S E registry settings w =
          Some (Inl (err, w2,
                av_log v @ WaitForEmptiness #
                LogInfo (activity_title_of (av_counter v) @ '' has been initiated.'') # evs2)))"
proof (intro conjI allI impI)
  show "authenticator S E registry settings w \<noteq> Some (Inr u)"
    unfolding authenticator_def by (rule authenticator_loop_never_returns)
next
  fix n v
  assume "authenticator_upto n S E registry settings (authenticator_start E w) = Some (Inr v)"
  from authenticator_upto_loop [OF this]
  show "authenticator S E registry settings w =
          (case authenticator_body S E registry settings v of
            None \<Rightarrow> None
          | Some (Inl raised) \<Rightarrow> Some (Inl raised)
          | Some (Inr v') \<Rightarrow> authenticator_loop S E registry settings v')"
    unfolding authenticator_def by (simp add: authenticator_loop_unfold [of S E registry settings v])
next
  fix n v err w2 evs2
  assume *: "authenticator_upto n S E registry settings (authenticator_start E w) = Some (Inr v)
        \<and> run_activity S E (all_at_once E) registry settings AUTHENTICATION
            (wait_for_emptiness E (av_world v)) = Some (Inl err, w2, evs2)"
  then have run: "run_activity S E (all_at_once E) registry settings AUTHENTICATION
            (wait_for_emptiness E (av_world v)) = Some (Inl err, w2, evs2)" by simp
  show auth: "authenticate S E registry settings (activity_title_of (av_counter v)) (av_world v) =
          Some (Inl err, w2,
                WaitForEmptiness #
                LogInfo (activity_title_of (av_counter v) @ '' has been initiated.'') # evs2)"
    by (rule authenticate_raises [OF run])
  have "authenticator_loop S E registry settings v =
          Some (Inl (err, w2,
                av_log v @ WaitForEmptiness #
                LogInfo (activity_title_of (av_counter v) @ '' has been initiated.'') # evs2))"
    by (subst authenticator_loop_unfold) (simp add: authenticator_body_def auth)
  with authenticator_upto_loop [of n S E registry settings "authenticator_start E w" v] *
  show "authenticator S E registry settings w =
          Some (Inl (err, w2,
                av_log v @ WaitForEmptiness #
                LogInfo (activity_title_of (av_counter v) @ '' has been initiated.'') # evs2))"
    unfolding authenticator_def by simp
qed

theorem authenticator_never_returns_witness:
  "authenticator_upto 1 State_ops (scripted_env 10) two_handlers ()
     (authenticator_start (scripted_env 10) world_two_rounds) = Some (Inr after_first_round)
   \<and> run_activity State_ops (scripted_env 10) (all_at_once (scripted_env 10)) two_handlers ()
       AUTHENTICATION (wait_for_emptiness (scripted_env 10) (av_world after_first_round)) =
     Some (Inl two_rounds_error, \<lparr>script = [], vault = []\<rparr>, second_round_batch_log)
   \<and> authenticator State_ops (scripted_env 10) two_handlers () world_two_rounds =
     Some (Inl (two_rounds_error, \<lparr>script = [], vault = []\<rparr>, two_rounds_log))"
proof -
  from authenticator_never_returns [of State_ops "scripted_env 10" two_handlers "()" world_two_rounds]
    first_round second_round_batch
  have "authenticator State_ops (scripted_env 10) two_handlers () world_two_rounds =
      Some (Inl (two_rounds_error, \<lparr>script = [], vault = []\<rparr>,
            av_log after_first_round @ WaitForEmptiness #
            LogInfo (activity_title_of (av_counter after_first_round) @ '' has been initiated.'') #
            second_round_batch_log))"
    by blast
  then have "authenticator State_ops (scripted_env 10) two_handlers () world_two_rounds =
      Some (Inl (two_rounds_error, \<lparr>script = [], vault = []\<rparr>, two_rounds_log))"
    by (simp add: after_first_round_def activity_title_of_def two_rounds_log_def)
  with first_round second_round_batch show ?thesis by blast
qed

text \<open>
  C10. The title of an iteration: when the vault is true at the start of the authenticator,
  every iteration is titled re-authentication, the first one too; when it is false, the
  first iteration is titled initial authentication and every later one re-authentication.
  Each iteration runs \<open>authenticate\<close> under that title: what iteration \<open>n + 1\<close> adds to the
  log starts with the wait and the line that says the title has been initiated. Apart from
  the logging calls, an attempt under one title does what it does under the other: the same
  result, the same world, the same calls in the same order.
\<close>

theorem first_title_depends_on_vault:
  "(\<forall>n v. authenticator_upto n S E registry settings (authenticator_start E w) = Some (Inr v) \<longrightarrow>
      activity_title_of (av_counter v) =
        (if vault_bool E w \<or> 0 < n then ''Re-authentication'' else ''Initial authentication''))
   \<and> (\<forall>title w0 res w' evs. authenticate S E registry settings title w0 = Some (res, w', evs) \<longrightarrow>
        take 2 evs = [WaitForEmptiness, LogInfo (title @ '' has been initiated.'')])
   \<and> (\<forall>w0. without_logging (authenticate S E registry settings ''Initial authentication'' w0) =
            without_logging (authenticate S E registry settings ''Re-authentication'' w0))
   \<and> (\<forall>n v r.
        authenticator_upto n S E registry settings (authenticator_start E w) = Some (Inr v)
        \<and> authenticator_upto (Suc n) S E registry settings (authenticator_start E w) = Some r \<longrightarrow>
        authenticator_body S E registry settings v = Some r
        \<and> (\<exists>rest. upto_log r = av_log v @ WaitForEmptiness #
              LogInfo ((if vault_bool E w \<or> 0 < n then ''Re-authentication''
                        else ''Initial authentication'') @ '' has been initiated.'') # rest))"
proof (intro conjI allI impI)
  fix n v
  assume "authenticator_upto n S E registry settings (authenticator_start E w) = Some (Inr v)"
  from authenticator_upto_counter [OF this]
  show "activity_title_of (av_counter v) =
        (if vault_bool E w \<or> 0 < n then ''Re-authentication'' else ''Initial authentication'')"
    by (simp add: activity_title_of_def authenticator_start_def)
next
  fix n v r
  assume *: "authenticator_upto n S E registry settings (authenticator_start E w) = Some (Inr v)
        \<and> authenticator_upto (Suc n) S E registry settings (authenticator_start E w) = Some r"
  then have upto: "authenticator_upto n S E registry settings (authenticator_start E w) = Some (Inr v)"
    by simp
  from * authenticator_upto_Suc [OF upto]
  show body: "authenticator_body S E registry settings v = Some r"
    by simp
  have title: "activity_title_of (av_counter v) =
        (if vault_bool E w \<or> 0 < n then ''Re-authentication'' else ''Initial authentication'')"
    using authenticator_upto_counter [OF upto]
    by (simp add: activity_title_of_def authenticator_start_def)
  from authenticator_body_first_lines [OF body]
  show "\<exists>rest. upto_log r = av_log v @ WaitForEmptiness #
              LogInfo ((if vault_bool E w \<or> 0 < n then ''Re-authentication''
                        else ''Initial authentication'') @ '' has been initiated.'') # rest"
    unfolding title .
next
  fix title w0 res w' evs
  assume "authenticate S E registry settings title w0 = Some (res, w', evs)"
  from authenticate_log [OF this]
  show "take 2 evs = [WaitForEmptiness, LogInfo (title @ '' has been initiated.'')]"
    by (auto simp: numeral_2_eq_2)
next
  fix w0
  show "without_logging (authenticate S E registry settings ''Initial authentication'' w0) =
            without_logging (authenticate S E registry settings ''Re-authentication'' w0)"
    by (rule authenticate_without_logging)
qed

theorem first_title_depends_on_vault_witness:
  "authenticator_upto 0 State_ops (scripted_env 10) two_handlers ()
     (authenticator_start (scripted_env 10) world_second_pass) =
     Some (Inr (authenticator_start (scripted_env 10) world_second_pass))
   \<and> \<not> vault_bool (scripted_env 10) world_second_pass
   \<and> activity_title_of (av_counter (authenticator_start (scripted_env 10) world_second_pass))
       = ''Initial authentication''
   \<and> authenticator_upto 1 State_ops (scripted_env 10) two_handlers ()
       (authenticator_start (scripted_env 10) world_second_pass) = Some (Inr after_initial_round)
   \<and> activity_title_of (av_counter after_initial_round) = ''Re-authentication''
   \<and> authenticator_upto 0 State_ops (scripted_env 10) two_handlers ()
       (authenticator_start (scripted_env 10) world_two_rounds) =
     Some (Inr (authenticator_start (scripted_env 10) world_two_rounds))
   \<and> vault_bool (scripted_env 10) world_two_rounds
   \<and> activity_title_of (av_counter (authenticator_start (scripted_env 10) world_two_rounds))
       = ''Re-authentication''
   \<and> authenticate State_ops (scripted_env 10) two_handlers () ''Re-authentication'' world_all_succeed =
     Some (Inr (), \<lparr>script = [], vault = [(''h1'', ''X'')]\<rparr>, all_succeed_log)
   \<and> take 2 all_succeed_log = [WaitForEmptiness, LogInfo ''Re-authentication has been initiated.'']
   \<and> take 2 (av_log after_initial_round) =
       [WaitForEmptiness, LogInfo ''Initial authentication has been initiated.'']
   \<and> authenticator_upto 1 State_ops (scripted_env 10) two_handlers ()
       (authenticator_start (scripted_env 10) world_two_rounds) = Some (Inr after_first_round)
   \<and> take 2 (av_log after_first_round) =
       [WaitForEmptiness, LogInfo ''Re-authentication has been initiated.'']
   \<and> authenticator_upto 2 State_ops (scripted_env 10) two_handlers ()
       (authenticator_start (scripted_env 10) world_two_rounds) =
     Some (Inl (two_rounds_error, \<lparr>script = [], vault = []\<rparr>, two_rounds_log))
   \<and> take 2 (drop (length (av_log after_first_round)) two_rounds_log) =
       [WaitForEmptiness, LogInfo ''Re-authentication has been initiated.'']"
proof -
  let ?E = "scripted_env 10"
  note empty = first_title_depends_on_vault [of State_ops ?E two_handlers "()" world_second_pass]
  note full = first_title_depends_on_vault [of State_ops ?E two_handlers "()" world_two_rounds]
  have start0: "authenticator_upto 0 State_ops ?E two_handlers () (authenticator_start ?E world_second_pass)
      = Some (Inr (authenticator_start ?E world_second_pass))"
    by simp
  have start1: "authenticator_upto 0 State_ops ?E two_handlers () (authenticator_start ?E world_two_rounds)
      = Some (Inr (authenticator_start ?E world_two_rounds))"
    by simp
  have v0: "\<not> vault_bool ?E world_second_pass"
    by (simp add: scripted_env_def world_second_pass_def)
  have v1: "vault_bool ?E world_two_rounds"
    by (simp add: scripted_env_def world_two_rounds_def)
  from empty start0 v0
  have t0: "activity_title_of (av_counter (authenticator_start ?E world_second_pass))
      = ''Initial authentication''"
    by (metis less_numeral_extra(3))
  from empty initial_round
  have t1: "activity_title_of (av_counter after_initial_round) = ''Re-authentication''"
    by (metis zero_less_one)
  from full start1 v1
  have t2: "activity_title_of (av_counter (authenticator_start ?E world_two_rounds))
      = ''Re-authentication''"
    by metis
  from empty authenticate_world_all_succeed
  have "take 2 all_succeed_log = [WaitForEmptiness, LogInfo (''Re-authentication'' @ '' has been initiated.'')]"
    by blast
  then have l: "take 2 all_succeed_log = [WaitForEmptiness, LogInfo ''Re-authentication has been initiated.'']"
    by simp
  have one: "Suc 0 = 1" and two: "Suc 1 = 2" by simp_all
  from empty start0 initial_round [folded one]
  have "\<exists>rest. upto_log (Inr after_initial_round ::
          ((string, string, string) ActivityError \<times> (string, string, string) scripted \<times> _) + _) =
        av_log (authenticator_start ?E world_second_pass) @ WaitForEmptiness #
        LogInfo ((if vault_bool ?E world_second_pass \<or> 0 < (0::nat) then ''Re-authentication''
                  else ''Initial authentication'') @ '' has been initiated.'') # rest"
    by blast
  then have l0: "take 2 (av_log after_initial_round) =
       [WaitForEmptiness, LogInfo ''Initial authentication has been initiated.'']"
    using v0 by (auto simp: upto_log_def authenticator_start_def numeral_2_eq_2)
  from full start1 first_round [folded one]
  have "\<exists>rest. upto_log (Inr after_first_round ::
          ((string, string, string) ActivityError \<times> (string, string, string) scripted \<times> _) + _) =
        av_log (authenticator_start ?E world_two_rounds) @ WaitForEmptiness #
        LogInfo ((if vault_bool ?E world_two_rounds \<or> 0 < (0::nat) then ''Re-authentication''
                  else ''Initial authentication'') @ '' has been initiated.'') # rest"
    by blast
  then have l1: "take 2 (av_log after_first_round) =
       [WaitForEmptiness, LogInfo ''Re-authentication has been initiated.'']"
    using v1 by (auto simp: upto_log_def authenticator_start_def numeral_2_eq_2)
  from full first_round two_rounds [folded two]
  have "\<exists>rest. upto_log (Inl (two_rounds_error, \<lparr>script = [], vault = []\<rparr>, two_rounds_log) ::
          ((string, string, string) ActivityError \<times> (string, string, string) scripted \<times> _) + _) =
        av_log after_first_round @ WaitForEmptiness #
        LogInfo ((if vault_bool ?E world_two_rounds \<or> 0 < (1::nat) then ''Re-authentication''
                  else ''Initial authentication'') @ '' has been initiated.'') # rest"
    by blast
  then obtain rest where second: "two_rounds_log = av_log after_first_round @ WaitForEmptiness #
        LogInfo ''Re-authentication has been initiated.'' # rest"
    by (auto simp: upto_log_def)
  have l2: "take 2 (drop (length (av_log after_first_round)) two_rounds_log) =
       [WaitForEmptiness, LogInfo ''Re-authentication has been initiated.'']"
    by (subst second) (simp add: numeral_2_eq_2)
  from start0 v0 t0 initial_round t1 start1 v1 t2 authenticate_world_all_succeed l
    l0 first_round l1 two_rounds l2
  show ?thesis by blast
qed

end
